theory Spec2Isabelle
  imports Main "HOL-Library.Word"
begin

unbundle bit_operations_syntax

section \<open>Data model\<close>

text \<open>
  The KVM dirty ring of \<^verbatim>\<open>virt/kvm/dirty_ring.c\<close> (the variant whose declarations are in
  \<^verbatim>\<open>include/linux/kvm_dirty_ring.h\<close>): a ring of dirty guest frame numbers with two
  free-running 32-bit counters. C's \<^verbatim>\<open>u32\<close> and \<^verbatim>\<open>u64\<close> are words, so \<open>+\<close> and \<open>-\<close> wrap.
\<close>

type_synonym u32 = "32 word"
type_synonym u64 = "64 word"

text \<open>\<^verbatim>\<open>struct kvm_dirty_gfn\<close>: the two fields the ring code reads and writes.\<close>

record kvm_dirty_gfn =
  slot :: u32
  offset :: u64

text \<open>\<^verbatim>\<open>struct kvm_dirty_ring_indices\<close>: the indices shared with userspace.\<close>

record kvm_dirty_ring_indices =
  avail_index :: u32
  fetch_index :: u32

text \<open>
  \<^verbatim>\<open>struct kvm_dirty_ring\<close>. The field \<^verbatim>\<open>size\<close> is called \<open>ring_size\<close> here, \<open>size\<close> being a
  constant of HOL. The array behind the pointer \<^verbatim>\<open>dirty_gfns\<close> is a list; the structure
  behind the pointer \<^verbatim>\<open>indices\<close> is held in the record, and a write of userspace to
  \<^verbatim>\<open>fetch_index\<close> is an update of that field.
\<close>

record kvm_dirty_ring =
  dirty_index :: u32
  reset_index :: u32
  ring_size :: u32
  soft_limit :: u32
  dirty_gfns :: "kvm_dirty_gfn list"
  indices :: kvm_dirty_ring_indices
  index :: int

text \<open>
  The negative errno values the functions return, and \<open>OutOfBounds\<close> for an access to
  \<^verbatim>\<open>dirty_gfns\<close> beyond the allocated array, which is undefined behaviour in C.
\<close>

datatype error = ENOMEM | EINVAL | EBUSY | OutOfBounds

text \<open>
  One call \<^verbatim>\<open>kvm_reset_dirty_gfn(kvm, slot, offset, mask)\<close> of the external collaborator,
  recorded as its three arguments. \<^verbatim>\<open>unsigned long\<close> is 64 bits wide.
\<close>

type_synonym flush = "u32 \<times> u64 \<times> u64"

text \<open>Modelled from the spec: the macro \<^verbatim>\<open>BITS_PER_LONG\<close>, whose header is not part of the
  sources; the accumulator is one machine word of 64 bits.\<close>

definition BITS_PER_LONG :: int where
  "BITS_PER_LONG = 64"

section \<open>Capacity queries\<close>

text \<open>The weak default of \<^verbatim>\<open>kvm_cpu_dirty_log_size\<close>, which an architecture may override.\<close>

definition kvm_cpu_dirty_log_size :: int where
  "kvm_cpu_dirty_log_size = 0"

text \<open>The macro \<^verbatim>\<open>KVM_DIRTY_RING_RSVD_ENTRIES\<close> is not part of the sources and is a
  parameter.\<close>

definition kvm_dirty_ring_get_rsvd_entries :: "u32 \<Rightarrow> u32" where
  "kvm_dirty_ring_get_rsvd_entries RSVD_ENTRIES = RSVD_ENTRIES + of_int kvm_cpu_dirty_log_size"

definition kvm_dirty_ring_used :: "kvm_dirty_ring \<Rightarrow> u32" where
  "kvm_dirty_ring_used ring = dirty_index ring - reset_index ring"

definition kvm_dirty_ring_soft_full :: "kvm_dirty_ring \<Rightarrow> bool" where
  "kvm_dirty_ring_soft_full ring \<longleftrightarrow> kvm_dirty_ring_used ring \<ge> soft_limit ring"

definition kvm_dirty_ring_full :: "kvm_dirty_ring \<Rightarrow> bool" where
  "kvm_dirty_ring_full ring \<longleftrightarrow> kvm_dirty_ring_used ring \<ge> ring_size ring"

section \<open>Allocation\<close>

text \<open>
  \<^verbatim>\<open>kvm_dirty_ring_alloc\<close>. Parameters standing for what the sources do not hold: whether
  \<^verbatim>\<open>vmalloc\<close> succeeds, \<^verbatim>\<open>sizeof(struct kvm_dirty_gfn)\<close>, and the reserved-entries macro.
  \<open>sz\<close> is the capacity in bytes; the zeroed memory holds \<open>sz div sizeof_gfn\<close> entries.
\<close>

definition kvm_dirty_ring_alloc ::
  "bool \<Rightarrow> nat \<Rightarrow> u32 \<Rightarrow> kvm_dirty_ring_indices \<Rightarrow> int \<Rightarrow> u32 \<Rightarrow> error + kvm_dirty_ring" where
  "kvm_dirty_ring_alloc vmalloc_ok sizeof_gfn RSVD_ENTRIES ind idx sz =
     (if \<not> vmalloc_ok then Inl ENOMEM
      else Inr \<lparr>dirty_index = 0,
                reset_index = 0,
                ring_size = of_nat (unat sz div sizeof_gfn),
                soft_limit = of_nat (unat sz div sizeof_gfn)
                               - kvm_dirty_ring_get_rsvd_entries RSVD_ENTRIES,
                dirty_gfns = replicate (unat sz div sizeof_gfn) \<lparr>slot = 0, offset = 0\<rparr>,
                indices = ind,
                index = idx\<rparr>)"

section \<open>Reset\<close>

text \<open>
  The \<^verbatim>\<open>while\<close> loop of \<^verbatim>\<open>kvm_dirty_ring_reset\<close> with the statements that follow it (the
  last call of \<^verbatim>\<open>kvm_reset_dirty_gfn\<close> and \<^verbatim>\<open>return count\<close>). The arguments are the local
  variables of the function (\<^verbatim>\<open>mask\<close> is \<open>mask0\<close>, \<open>mask\<close> being a constant of HOL);
  \<open>calls\<close> collects the calls of \<^verbatim>\<open>kvm_reset_dirty_gfn\<close> in order.
  \<^verbatim>\<open>s64 delta\<close> is read with \<open>sint\<close>; \<^verbatim>\<open>int count\<close> is a 32-bit word returned through
  \<open>sint\<close>.
\<close>

function kvm_dirty_ring_reset_loop ::
  "u32 \<Rightarrow> kvm_dirty_ring \<Rightarrow> u32 \<Rightarrow> u64 \<Rightarrow> u64 \<Rightarrow> bool \<Rightarrow> 32 word \<Rightarrow> flush list
   \<Rightarrow> (error + int) \<times> kvm_dirty_ring \<times> flush list" where
  "kvm_dirty_ring_reset_loop fetch ring cur_slot cur_offset mask0 first_round count calls =
     (if reset_index ring = fetch then
        (Inr (sint count), ring, calls @ [(cur_slot, cur_offset, mask0)])
      else if length (dirty_gfns ring) \<le> unat (reset_index ring AND (ring_size ring - 1)) then
        (Inl OutOfBounds, ring, calls)
      else
        let entry = dirty_gfns ring ! unat (reset_index ring AND (ring_size ring - 1));
            next_slot = slot entry;
            next_offset = offset entry;
            ring' = ring\<lparr>reset_index := reset_index ring + 1\<rparr>;
            count' = count + 1;
            delta = next_offset - cur_offset
        in
          if \<not> first_round \<and> next_slot = cur_slot
             \<and> 0 \<le> sint delta \<and> sint delta < BITS_PER_LONG then
            kvm_dirty_ring_reset_loop fetch ring' cur_slot cur_offset
              (mask0 OR push_bit (nat (sint delta)) 1) first_round count' calls
          else if \<not> first_round \<and> next_slot = cur_slot
                  \<and> - BITS_PER_LONG < sint delta \<and> sint delta < 0
                  \<and> drop_bit (nat (- sint delta)) (push_bit (nat (- sint delta)) mask0) = mask0 then
            kvm_dirty_ring_reset_loop fetch ring' cur_slot next_offset
              (push_bit (nat (- sint delta)) mask0 OR 1) first_round count' calls
          else
            kvm_dirty_ring_reset_loop fetch ring' next_slot next_offset 1 False count'
              (calls @ [(cur_slot, cur_offset, mask0)]))"
  by pat_completeness auto

termination
proof -
  have less: "unat (b - (a + 1)) < unat (b - a)" if ne: "a \<noteq> b" for a b :: u32
  proof -
    have nz: "b - a \<noteq> 0" using ne by auto
    have eq: "b - (a + 1) = (b - a) - 1" by simp
    have "unat (b - (a + 1)) = unat (b - a) - 1"
      unfolding eq by (rule unat_minus_one [OF nz])
    moreover have "unat (b - a) \<noteq> 0" using nz by (simp add: unat_eq_0)
    ultimately show ?thesis by simp
  qed
  show ?thesis
    by (relation "measure (\<lambda>(fetch, ring, _). unat (fetch - reset_index ring))")
       (simp_all add: less)
qed

text \<open>
  \<^verbatim>\<open>kvm_dirty_ring_reset\<close>: the result is the returned \<^verbatim>\<open>int\<close> (\<open>Inl\<close> for a negative errno),
  the ring afterwards and the calls of \<^verbatim>\<open>kvm_reset_dirty_gfn\<close> made. The tracepoint is not
  modelled.
\<close>

definition kvm_dirty_ring_reset ::
  "kvm_dirty_ring \<Rightarrow> (error + int) \<times> kvm_dirty_ring \<times> flush list" where
  "kvm_dirty_ring_reset ring =
     (let fetch = fetch_index (indices ring) in
      if fetch - reset_index ring > ring_size ring then (Inl EINVAL, ring, [])
      else if fetch = reset_index ring then (Inr 0, ring, [])
      else kvm_dirty_ring_reset_loop fetch ring 0 0 0 True 0 [])"

section \<open>Push\<close>

text \<open>
  \<^verbatim>\<open>kvm_dirty_ring_push\<close>. \<open>running_vcpu\<close> says that \<^verbatim>\<open>kvm_get_running_vcpu()\<close> is not
  \<^verbatim>\<open>NULL\<close>. The third component of the result says whether \<^verbatim>\<open>WARN_ON_ONCE\<close> saw a full
  ring; the function goes on after the warning. The write barrier and the tracepoint
  are not modelled.
\<close>

definition kvm_dirty_ring_push ::
  "bool \<Rightarrow> kvm_dirty_ring \<Rightarrow> u32 \<Rightarrow> u64 \<Rightarrow> (error + int) \<times> kvm_dirty_ring \<times> bool" where
  "kvm_dirty_ring_push running_vcpu ring s off =
     (if \<not> running_vcpu \<and> kvm_dirty_ring_soft_full ring then (Inl EBUSY, ring, False)
      else
        let warned = kvm_dirty_ring_full ring;
            i = unat (dirty_index ring AND (ring_size ring - 1))
        in
          if length (dirty_gfns ring) \<le> i then (Inl OutOfBounds, ring, warned)
          else
            let ring1 = ring\<lparr>dirty_gfns :=
                          (dirty_gfns ring)[i := (dirty_gfns ring ! i)\<lparr>slot := s, offset := off\<rparr>]\<rparr>;
                ring2 = ring1\<lparr>dirty_index := dirty_index ring1 + 1\<rparr>;
                ring3 = ring2\<lparr>indices := (indices ring2)\<lparr>avail_index := dirty_index ring2\<rparr>\<rparr>
            in (Inr 0, ring3, warned))"

section \<open>The variant that takes the vCPU\<close>

text \<open>
  The sources hold a second \<^verbatim>\<open>kvm_dirty_ring_reset\<close> and \<^verbatim>\<open>kvm_dirty_ring_push\<close>, which take
  the \<^verbatim>\<open>struct kvm_vcpu\<close>; here they carry the suffix \<open>_vcpu\<close>. The structure declaration
  they were written against is not part of the sources: the fields they use are taken
  with the types of \<^verbatim>\<open>kvm_dirty_ring.h\<close>, and \<^verbatim>\<open>vcpu->run->dirty_ring_indexes\<close> is the field
  \<open>indices\<close>. The spin lock, the barriers and the \<^verbatim>\<open>kvm\<close> argument are not modelled.
\<close>

definition kvm_dirty_ring_reset_index :: "kvm_dirty_ring \<Rightarrow> u32" where
  "kvm_dirty_ring_reset_index ring = reset_index ring AND (ring_size ring - 1)"

text \<open>
  The \<^verbatim>\<open>while\<close> loop of this \<^verbatim>\<open>kvm_dirty_ring_reset\<close> with the statements after it. It
  compares the masked \<^verbatim>\<open>reset_index\<close> with \<open>fetch\<close> and runs for ever when \<open>fetch\<close> has a bit
  outside the mask, so its result is an \<open>option\<close>. \<^verbatim>\<open>int delta\<close> is the difference of the
  offsets cut to 32 bits.
\<close>

partial_function (option) kvm_dirty_ring_reset_vcpu_loop ::
  "u32 \<Rightarrow> kvm_dirty_ring \<Rightarrow> u32 \<Rightarrow> u64 \<Rightarrow> u64 \<Rightarrow> 32 word \<Rightarrow> flush list
   \<Rightarrow> ((error + int) \<times> kvm_dirty_ring \<times> flush list) option" where
  "kvm_dirty_ring_reset_vcpu_loop fetch ring cur_slot cur_offset mask0 count calls =
     (if kvm_dirty_ring_reset_index ring = fetch then
        Some (Inr (sint count), ring, calls @ [(cur_slot, cur_offset, mask0)])
      else if length (dirty_gfns ring) \<le> unat (kvm_dirty_ring_reset_index ring) then
        Some (Inl OutOfBounds, ring, calls)
      else
        let entry = dirty_gfns ring ! unat (kvm_dirty_ring_reset_index ring);
            next_slot = slot entry;
            next_offset = offset entry;
            ring' = ring\<lparr>reset_index := reset_index ring + 1\<rparr>;
            count' = count + 1;
            delta = (ucast (next_offset - cur_offset) :: 32 word)
        in
          if next_slot = cur_slot \<and> 0 \<le> sint delta \<and> sint delta < BITS_PER_LONG then
            kvm_dirty_ring_reset_vcpu_loop fetch ring' cur_slot cur_offset
              (mask0 OR push_bit (nat (sint delta)) 1) count' calls
          else if next_slot = cur_slot
                  \<and> - BITS_PER_LONG < sint delta \<and> sint delta < 0
                  \<and> drop_bit (nat (- sint delta)) (push_bit (nat (- sint delta)) mask0) = mask0 then
            kvm_dirty_ring_reset_vcpu_loop fetch ring' cur_slot next_offset
              (push_bit (nat (- sint delta)) mask0 OR 1) count' calls
          else
            kvm_dirty_ring_reset_vcpu_loop fetch ring' next_slot next_offset 1 count'
              (calls @ [(cur_slot, cur_offset, mask0)]))"

declare kvm_dirty_ring_reset_vcpu_loop.simps [code]

definition kvm_dirty_ring_reset_vcpu ::
  "kvm_dirty_ring \<Rightarrow> ((error + int) \<times> kvm_dirty_ring \<times> flush list) option" where
  "kvm_dirty_ring_reset_vcpu ring =
     (let fetch = fetch_index (indices ring) AND (ring_size ring - 1) in
      if fetch = kvm_dirty_ring_reset_index ring then Some (Inr 0, ring, [])
      else if length (dirty_gfns ring) \<le> unat (kvm_dirty_ring_reset_index ring) then
        Some (Inl OutOfBounds, ring, [])
      else
        let entry = dirty_gfns ring ! unat (kvm_dirty_ring_reset_index ring) in
        kvm_dirty_ring_reset_vcpu_loop fetch (ring\<lparr>reset_index := reset_index ring + 1\<rparr>)
          (slot entry) (offset entry) 1 1 [])"

text \<open>
  This \<^verbatim>\<open>kvm_dirty_ring_push\<close>: \<^verbatim>\<open>u16 num\<close> is the used count cut to 16 bits; the result is
  \<^verbatim>\<open>-EBUSY\<close> on a full ring, and otherwise 1 or 0 as the ring is soft-full or not after
  the push. The third component says whether \<^verbatim>\<open>WARN_ON_ONCE\<close> fired.
\<close>

definition kvm_dirty_ring_push_vcpu ::
  "kvm_dirty_ring \<Rightarrow> u32 \<Rightarrow> u64 \<Rightarrow> (error + int) \<times> kvm_dirty_ring \<times> bool" where
  "kvm_dirty_ring_push_vcpu ring s off =
     (let num = (ucast (dirty_index ring - reset_index ring) :: 16 word) in
      if (ucast num :: u32) \<ge> ring_size ring then
        (Inl EBUSY, ring, (ucast num :: u32) > ring_size ring)
      else
        let i = unat (dirty_index ring AND (ring_size ring - 1)) in
        if length (dirty_gfns ring) \<le> i then (Inl OutOfBounds, ring, False)
        else
          let ring1 = ring\<lparr>dirty_gfns :=
                        (dirty_gfns ring)[i := (dirty_gfns ring ! i)\<lparr>slot := s, offset := off\<rparr>]\<rparr>;
              ring2 = ring1\<lparr>dirty_index := dirty_index ring1 + 1\<rparr>;
              num' = (ucast (dirty_index ring2 - reset_index ring2) :: 16 word);
              ring3 = ring2\<lparr>indices := (indices ring2)
                        \<lparr>avail_index := dirty_index ring2 mod ring_size ring2\<rparr>\<rparr>
          in (Inr (if (ucast num' :: u32) \<ge> soft_limit ring3 then 1 else 0), ring3, False))"

section \<open>Harness for the claims\<close>

text \<open>
  What surrounds the ring code in the claims: userspace publishing a \<^verbatim>\<open>fetch_index\<close>, a
  sequence of pushes that stops at the first push that fails, and such a sequence
  followed by a reset with \<^verbatim>\<open>fetch_index = dirty_index\<close>.
\<close>

definition publish_fetch :: "u32 \<Rightarrow> kvm_dirty_ring \<Rightarrow> kvm_dirty_ring" where
  "publish_fetch f ring = ring\<lparr>indices := (indices ring)\<lparr>fetch_index := f\<rparr>\<rparr>"

fun push_seq :: "kvm_dirty_ring \<Rightarrow> (bool \<times> u32 \<times> u64) list \<Rightarrow> error + kvm_dirty_ring" where
  "push_seq ring [] = Inr ring"
| "push_seq ring ((running_vcpu, s, off) # ps) =
     (case fst (kvm_dirty_ring_push running_vcpu ring s off) of
        Inl e \<Rightarrow> Inl e
      | Inr _ \<Rightarrow> push_seq (fst (snd (kvm_dirty_ring_push running_vcpu ring s off))) ps)"

definition push_then_reset ::
  "kvm_dirty_ring \<Rightarrow> (bool \<times> u32 \<times> u64) list
   \<Rightarrow> error + ((error + int) \<times> kvm_dirty_ring \<times> flush list)" where
  "push_then_reset ring ps =
     (case push_seq ring ps of
        Inl e \<Rightarrow> Inl e
      | Inr r \<Rightarrow> Inr (kvm_dirty_ring_reset (publish_fetch (dirty_index r) r)))"

text \<open>The array behind \<^verbatim>\<open>dirty_gfns\<close> holds \<^verbatim>\<open>size\<close> entries, and there is at least one.\<close>

definition dirty_gfns_valid :: "kvm_dirty_ring \<Rightarrow> bool" where
  "dirty_gfns_valid ring \<longleftrightarrow>
     ring_size ring \<noteq> 0 \<and> length (dirty_gfns ring) = unat (ring_size ring)"

text \<open>The calls of \<^verbatim>\<open>kvm_reset_dirty_gfn\<close> whose mask names at least one page.\<close>

definition nonempty_flushes :: "flush list \<Rightarrow> flush list" where
  "nonempty_flushes calls = filter (\<lambda>c. snd (snd c) \<noteq> 0) calls"

subsection \<open>Runs of the ring\<close>

text \<open>
  A run is a list of operations applied to a state \<open>(D, R, ring)\<close>, where \<open>D\<close> counts the
  pushes made and \<open>R\<close> adds up the counts the resets returned: the unbounded reading of
  the two 32-bit counters. A step is admitted when the push returns 0 without
  \<^verbatim>\<open>WARN_ON_ONCE\<close> having found the ring full, and when the reset returns a count for a
  published \<^verbatim>\<open>fetch_index\<close> that is not ahead of \<^verbatim>\<open>dirty_index\<close>; userspace may publish
  any \<^verbatim>\<open>fetch_index\<close> at any time. A step that is not admitted ends the run with \<open>None\<close>.
\<close>

datatype ring_op = Push bool u32 u64 | Publish u32 | Reset

fun ring_step :: "nat \<times> nat \<times> kvm_dirty_ring \<Rightarrow> ring_op \<Rightarrow> (nat \<times> nat \<times> kvm_dirty_ring) option" where
  "ring_step (D, R, ring) (Push running_vcpu s off) =
     (case kvm_dirty_ring_push running_vcpu ring s off of
        (Inr ret, ring', warned) \<Rightarrow> if warned then None else Some (Suc D, R, ring')
      | (Inl e, ring', warned) \<Rightarrow> None)"
| "ring_step (D, R, ring) (Publish f) = Some (D, R, publish_fetch f ring)"
| "ring_step (D, R, ring) Reset =
     (if fetch_index (indices ring) - reset_index ring \<le> kvm_dirty_ring_used ring then
        (case kvm_dirty_ring_reset ring of
           (Inr c, ring', calls) \<Rightarrow> Some (D, R + nat c, ring')
         | (Inl e, ring', calls) \<Rightarrow> None)
      else None)"

fun ring_run :: "nat \<times> nat \<times> kvm_dirty_ring \<Rightarrow> ring_op list \<Rightarrow> (nat \<times> nat \<times> kvm_dirty_ring) option" where
  "ring_run st [] = Some st"
| "ring_run st (x # xs) = (case ring_step st x of None \<Rightarrow> None | Some st' \<Rightarrow> ring_run st' xs)"

text \<open>The invariant of the data model, in the unbounded reading.\<close>

definition counters_inv :: "nat \<times> nat \<times> kvm_dirty_ring \<Rightarrow> bool" where
  "counters_inv st \<longleftrightarrow>
     (case st of (D, R, ring) \<Rightarrow>
        R \<le> D \<and> D \<le> R + unat (ring_size ring)
        \<and> dirty_index ring = of_nat D \<and> reset_index ring = of_nat R)"

subsection \<open>Concrete rings\<close>

text \<open>
  The ring that \<^verbatim>\<open>kvm_dirty_ring_alloc\<close> returns for 64 bytes, entries of 16 bytes and one
  reserved entry: four zeroed entries and a soft limit of three.
\<close>

definition example_ring :: kvm_dirty_ring where
  "example_ring =
     \<lparr>dirty_index = 0, reset_index = 0, ring_size = 4, soft_limit = 3,
      dirty_gfns = [\<lparr>slot = 0, offset = 0\<rparr>, \<lparr>slot = 0, offset = 0\<rparr>,
                    \<lparr>slot = 0, offset = 0\<rparr>, \<lparr>slot = 0, offset = 0\<rparr>],
      indices = \<lparr>avail_index = 0, fetch_index = 0\<rparr>, index = 0\<rparr>"

text \<open>That ring after the pushes of (1, 0), (1, 1) and (1, 2): three entries in use.\<close>

definition example_ring_soft_full :: kvm_dirty_ring where
  "example_ring_soft_full =
     \<lparr>dirty_index = 3, reset_index = 0, ring_size = 4, soft_limit = 3,
      dirty_gfns = [\<lparr>slot = 1, offset = 0\<rparr>, \<lparr>slot = 1, offset = 1\<rparr>,
                    \<lparr>slot = 1, offset = 2\<rparr>, \<lparr>slot = 0, offset = 0\<rparr>],
      indices = \<lparr>avail_index = 3, fetch_index = 0\<rparr>, index = 0\<rparr>"

text \<open>A ring of four entries whose counters have passed \<open>2 ^ 32\<close>: \<open>2 ^ 32 + 1\<close> entries
  pushed and \<open>2 ^ 32 - 1\<close> consumed, so two are in use.\<close>

definition example_ring_wrapped :: kvm_dirty_ring where
  "example_ring_wrapped =
     \<lparr>dirty_index = 1, reset_index = 0xFFFFFFFF, ring_size = 4, soft_limit = 3,
      dirty_gfns = [\<lparr>slot = 2, offset = 8\<rparr>, \<lparr>slot = 0, offset = 0\<rparr>,
                    \<lparr>slot = 0, offset = 0\<rparr>, \<lparr>slot = 2, offset = 7\<rparr>],
      indices = \<lparr>avail_index = 1, fetch_index = 0xFFFFFFFF\<rparr>, index = 0\<rparr>"

section \<open>The concrete rings are what the code produces\<close>

lemma example_ring_alloc:
  "kvm_dirty_ring_alloc True 16 1 \<lparr>avail_index = 0, fetch_index = 0\<rparr> 0 64 = Inr example_ring"
  by code_simp

lemma example_ring_soft_full_pushed:
  "push_seq example_ring [(True, 1, 0), (True, 1, 1), (True, 1, 2)] = Inr example_ring_soft_full"
  by code_simp

section \<open>The reset loop\<close>

declare kvm_dirty_ring_reset_loop.simps [simp del]

lemma and_size_minus_one_less:
  fixes x n :: u32
  assumes "n \<noteq> 0"
  shows "unat (x AND (n - 1)) < unat n"
proof -
  have "x AND (n - 1) \<le> n - 1" by (rule word_and_le1)
  then have "unat (x AND (n - 1)) \<le> unat (n - 1)" by (simp add: word_le_nat_alt)
  moreover have "unat (n - 1) = unat n - 1" by (rule unat_minus_one [OF assms])
  moreover have "unat n \<noteq> 0" using assms by (simp add: unat_eq_0)
  ultimately show ?thesis by arith
qed

lemma reset_loop_exit:
  "reset_index ring = fetch \<Longrightarrow>
   kvm_dirty_ring_reset_loop fetch ring cs co m fr cnt calls =
     (Inr (sint cnt), ring, calls @ [(cs, co, m)])"
  by (subst kvm_dirty_ring_reset_loop.simps) simp

lemma reset_loop_oob:
  "reset_index ring \<noteq> fetch \<Longrightarrow>
   length (dirty_gfns ring) \<le> unat (reset_index ring AND (ring_size ring - 1)) \<Longrightarrow>
   kvm_dirty_ring_reset_loop fetch ring cs co m fr cnt calls = (Inl OutOfBounds, ring, calls)"
  by (subst kvm_dirty_ring_reset_loop.simps) simp

lemma reset_loop_step:
  assumes "reset_index ring \<noteq> fetch"
    and "\<not> length (dirty_gfns ring) \<le> unat (reset_index ring AND (ring_size ring - 1))"
  shows "\<exists>cs' co' m' fr' calls'.
     kvm_dirty_ring_reset_loop fetch ring cs co m fr cnt calls =
     kvm_dirty_ring_reset_loop fetch (ring\<lparr>reset_index := reset_index ring + 1\<rparr>)
        cs' co' m' fr' (cnt + 1) calls'"
  using assms
  by (subst kvm_dirty_ring_reset_loop.simps) (simp add: Let_def, blast)

lemma unat_fetch_distance_step:
  fixes fetch :: u32
  assumes "reset_index ring \<noteq> fetch" and "unat (fetch - reset_index ring) = Suc n"
  shows "unat (fetch - reset_index (ring\<lparr>reset_index := reset_index ring + 1\<rparr>)) = n"
proof -
  have nz: "fetch - reset_index ring \<noteq> 0" using assms(1) by auto
  have "fetch - reset_index (ring\<lparr>reset_index := reset_index ring + 1\<rparr>)
          = (fetch - reset_index ring) - 1" by simp
  then have "unat (fetch - reset_index (ring\<lparr>reset_index := reset_index ring + 1\<rparr>))
          = unat (fetch - reset_index ring) - 1"
    using unat_minus_one [OF nz] by (simp only:)
  with assms(2) show ?thesis by simp
qed

text \<open>When the loop returns a count, it has moved \<open>reset_index\<close> to \<open>fetch\<close>, touched
  nothing else, and counted one per entry.\<close>

lemma reset_loop_Inr_aux:
  "unat (fetch - reset_index ring) = n \<Longrightarrow>
   kvm_dirty_ring_reset_loop fetch ring cs co m fr cnt calls = (Inr c, ring', calls') \<Longrightarrow>
   ring' = ring\<lparr>reset_index := fetch\<rparr> \<and> c = sint (cnt + (fetch - reset_index ring))"
proof (induction n arbitrary: ring cs co m fr cnt calls)
  case 0
  then have "reset_index ring = fetch" by (simp add: unat_eq_0)
  with "0.prems"(2) show ?case by (auto simp: reset_loop_exit)
next
  case (Suc n)
  then have ne: "reset_index ring \<noteq> fetch" by auto
  show ?case
  proof (cases "length (dirty_gfns ring) \<le> unat (reset_index ring AND (ring_size ring - 1))")
    case True
    with ne Suc.prems(2) show ?thesis by (simp add: reset_loop_oob)
  next
    case False
    let ?ring = "ring\<lparr>reset_index := reset_index ring + 1\<rparr>"
    from reset_loop_step [OF ne False, of cs co m fr cnt calls]
    obtain cs' co' m' fr' calls1 where
      eq: "kvm_dirty_ring_reset_loop fetch ring cs co m fr cnt calls =
           kvm_dirty_ring_reset_loop fetch ?ring cs' co' m' fr' (cnt + 1) calls1"
      by blast
    have n: "unat (fetch - reset_index ?ring) = n"
      by (rule unat_fetch_distance_step [OF ne Suc.prems(1)])
    from Suc.prems(2) eq
    have "kvm_dirty_ring_reset_loop fetch ?ring cs' co' m' fr' (cnt + 1) calls1
            = (Inr c, ring', calls')"
      by simp
    from Suc.IH [OF n this] show ?thesis by simp
  qed
qed

lemmas reset_loop_Inr = reset_loop_Inr_aux [OF refl]

text \<open>On a ring whose array holds \<^verbatim>\<open>size\<close> entries the loop stays inside the array and
  returns a count.\<close>

lemma reset_loop_total_aux:
  "unat (fetch - reset_index ring) = n \<Longrightarrow> ring_size ring \<noteq> 0 \<Longrightarrow>
   unat (ring_size ring) \<le> length (dirty_gfns ring) \<Longrightarrow>
   \<exists>c calls'. kvm_dirty_ring_reset_loop fetch ring cs co m fr cnt calls
                 = (Inr c, ring\<lparr>reset_index := fetch\<rparr>, calls')"
proof (induction n arbitrary: ring cs co m fr cnt calls)
  case 0
  then have "reset_index ring = fetch" by (simp add: unat_eq_0)
  then show ?case by (auto simp: reset_loop_exit)
next
  case (Suc n)
  then have ne: "reset_index ring \<noteq> fetch" by auto
  have inr: "\<not> length (dirty_gfns ring) \<le> unat (reset_index ring AND (ring_size ring - 1))"
    using and_size_minus_one_less [OF Suc.prems(2), of "reset_index ring"] Suc.prems(3) by simp
  let ?ring = "ring\<lparr>reset_index := reset_index ring + 1\<rparr>"
  from reset_loop_step [OF ne inr, of cs co m fr cnt calls]
  obtain cs' co' m' fr' calls1 where
    eq: "kvm_dirty_ring_reset_loop fetch ring cs co m fr cnt calls =
         kvm_dirty_ring_reset_loop fetch ?ring cs' co' m' fr' (cnt + 1) calls1"
    by blast
  have n: "unat (fetch - reset_index ?ring) = n"
    by (rule unat_fetch_distance_step [OF ne Suc.prems(1)])
  have "ring_size ?ring \<noteq> 0" "unat (ring_size ?ring) \<le> length (dirty_gfns ?ring)"
    using Suc.prems by simp_all
  from Suc.IH [OF n this, of cs' co' m' fr' "cnt + 1" calls1] eq
  show ?case by simp
qed

lemmas reset_loop_total = reset_loop_total_aux [OF refl]

text \<open>The loop returns a count or leaves the array; it never returns an errno.\<close>

lemma reset_loop_result_aux:
  "unat (fetch - reset_index ring) = n \<Longrightarrow>
   fst (kvm_dirty_ring_reset_loop fetch ring cs co m fr cnt calls) = Inl e \<Longrightarrow> e = OutOfBounds"
proof (induction n arbitrary: ring cs co m fr cnt calls)
  case 0
  then have "reset_index ring = fetch" by (simp add: unat_eq_0)
  with "0.prems"(2) show ?case by (simp add: reset_loop_exit)
next
  case (Suc n)
  then have ne: "reset_index ring \<noteq> fetch" by auto
  show ?case
  proof (cases "length (dirty_gfns ring) \<le> unat (reset_index ring AND (ring_size ring - 1))")
    case True
    with ne Suc.prems(2) show ?thesis by (simp add: reset_loop_oob)
  next
    case False
    let ?ring = "ring\<lparr>reset_index := reset_index ring + 1\<rparr>"
    from reset_loop_step [OF ne False, of cs co m fr cnt calls]
    obtain cs' co' m' fr' calls1 where
      eq: "kvm_dirty_ring_reset_loop fetch ring cs co m fr cnt calls =
           kvm_dirty_ring_reset_loop fetch ?ring cs' co' m' fr' (cnt + 1) calls1"
      by blast
    have n: "unat (fetch - reset_index ?ring) = n"
      by (rule unat_fetch_distance_step [OF ne Suc.prems(1)])
    from Suc.prems(2) eq
    have "fst (kvm_dirty_ring_reset_loop fetch ?ring cs' co' m' fr' (cnt + 1) calls1) = Inl e"
      by simp
    from Suc.IH [OF n this] show ?thesis .
  qed
qed

lemmas reset_loop_result = reset_loop_result_aux [OF refl]

section \<open>Reset as a whole\<close>

lemma reset_not_EINVAL:
  "\<not> ring_size ring < fetch_index (indices ring) - reset_index ring \<Longrightarrow>
   fst (kvm_dirty_ring_reset ring) \<noteq> Inl EINVAL"
  using reset_loop_result [of "fetch_index (indices ring)" ring 0 0 0 True 0 "[]" EINVAL]
  by (auto simp: kvm_dirty_ring_reset_def Let_def)

lemma reset_noop:
  "fetch_index (indices ring) = reset_index ring \<Longrightarrow>
   kvm_dirty_ring_reset ring = (Inr 0, ring, [])"
  by (simp add: kvm_dirty_ring_reset_def)

lemma reset_Inr_state:
  assumes "kvm_dirty_ring_reset ring = (Inr c, ring', calls)"
  shows "ring' = ring\<lparr>reset_index := fetch_index (indices ring)\<rparr>"
proof (cases "fetch_index (indices ring) = reset_index ring")
  case True
  with assms show ?thesis by (simp add: reset_noop)
next
  case False
  with assms have "kvm_dirty_ring_reset_loop (fetch_index (indices ring)) ring 0 0 0 True 0 []
      = (Inr c, ring', calls)"
    by (simp add: kvm_dirty_ring_reset_def Let_def split: if_splits)
  from reset_loop_Inr [OF this] show ?thesis by simp
qed

section \<open>Push\<close>

lemma gfn_update_both:
  fixes e :: kvm_dirty_gfn
  shows "e\<lparr>slot := s, offset := off\<rparr> = \<lparr>slot = s, offset = off\<rparr>"
  by (cases e) simp

lemma and_pow2_minus_one:
  fixes x :: u32
  shows "unat (x AND (2 ^ k - 1)) = unat x mod unat ((2::u32) ^ k)"
proof -
  have "x AND (2 ^ k - 1) = take_bit k x"
    by (simp add: take_bit_eq_mask mask_eq_exp_minus_1)
  also have "\<dots> = x mod 2 ^ k"
    by (rule take_bit_eq_mod)
  finally show ?thesis by (simp only: unat_mod)
qed

lemma push_EBUSY_iff:
  "fst (kvm_dirty_ring_push running_vcpu ring s off) = Inl EBUSY
     \<longleftrightarrow> \<not> running_vcpu \<and> soft_limit ring \<le> kvm_dirty_ring_used ring"
  by (simp add: kvm_dirty_ring_push_def Let_def kvm_dirty_ring_soft_full_def)

lemma push_in_range:
  "dirty_gfns_valid ring \<Longrightarrow>
   \<not> length (dirty_gfns ring) \<le> unat (dirty_index ring AND (ring_size ring - 1))"
  using and_size_minus_one_less [of "ring_size ring" "dirty_index ring"]
  by (simp add: dirty_gfns_valid_def)

lemma push_ret_zero:
  "fst (kvm_dirty_ring_push running_vcpu ring s off) = Inr ret \<Longrightarrow> ret = 0"
  by (auto simp: kvm_dirty_ring_push_def Let_def split: if_splits)

lemma unat_pow2:
  assumes "k < 32"
  shows "unat ((2::u32) ^ k) = 2 ^ k"
proof -
  have lt: "(2::nat) ^ k < 2 ^ 32" using assms by (intro power_strict_increasing) simp_all
  have "unat ((2::u32) ^ k) = unat (of_nat (2 ^ k) :: u32)" by simp
  also have "\<dots> = 2 ^ k mod 2 ^ LENGTH(32)" by (rule unat_of_nat)
  also have "\<dots> = 2 ^ k" using lt by simp
  finally show ?thesis .
qed

lemma ring_slot_succ_distinct:
  fixes d :: u32
  assumes "1 \<le> k"
  shows "d AND (2 ^ k - 1) \<noteq> (d + 1) AND (2 ^ k - 1)"
proof
  assume eq: "d AND (2 ^ k - 1) = (d + 1) AND (2 ^ k - 1)"
  have odd: "odd ((2::u32) ^ k - 1)" using assms by simp
  have "even (d AND (2 ^ k - 1)) \<longleftrightarrow> even d" using odd by (simp add: even_and_iff)
  moreover have "even ((d + 1) AND (2 ^ k - 1)) \<longleftrightarrow> even (d + 1)"
    using odd by (simp add: even_and_iff)
  ultimately show False using eq by simp
qed

lemma push_Inr:
  assumes "kvm_dirty_ring_push v ring s off = (Inr ret, ring', warned)"
  shows "ring' = ring\<lparr>dirty_gfns := (dirty_gfns ring)
                    [unat (dirty_index ring AND (ring_size ring - 1)) := \<lparr>slot = s, offset = off\<rparr>],
                  dirty_index := dirty_index ring + 1,
                  indices := (indices ring)\<lparr>avail_index := dirty_index ring + 1\<rparr>\<rparr>"
    and "unat (dirty_index ring AND (ring_size ring - 1)) < length (dirty_gfns ring)"
    and "ret = 0" and "warned = kvm_dirty_ring_full ring"
  using assms
  by (auto simp: kvm_dirty_ring_push_def Let_def gfn_update_both split: if_splits)

lemma push_seq_two:
  assumes "push_seq ring [(v1, s1, off1), (v2, s2, off2)] = Inr r"
  shows "\<exists>ring1 w1 w2. kvm_dirty_ring_push v1 ring s1 off1 = (Inr 0, ring1, w1)
           \<and> kvm_dirty_ring_push v2 ring1 s2 off2 = (Inr 0, r, w2)"
proof -
  obtain res1 ring1 w1 where p1: "kvm_dirty_ring_push v1 ring s1 off1 = (res1, ring1, w1)"
    by (cases "kvm_dirty_ring_push v1 ring s1 off1") auto
  obtain res2 ring2 w2 where p2: "kvm_dirty_ring_push v2 ring1 s2 off2 = (res2, ring2, w2)"
    by (cases "kvm_dirty_ring_push v2 ring1 s2 off2") auto
  from assms p1 obtain ret1 where r1: "res1 = Inr ret1"
    by (cases res1) auto
  from assms p1 p2 r1 obtain ret2 where r2: "res2 = Inr ret2" and r: "ring2 = r"
    by (cases res2) auto
  from push_Inr(3) [OF p1 [unfolded r1]] push_Inr(3) [OF p2 [unfolded r2]] p1 p2 r1 r2 r
  show ?thesis by auto
qed

lemma push_vcpu_Inr:
  assumes "kvm_dirty_ring_push_vcpu ring s off = (Inr ret, ring', warned)"
  shows "ring' = ring\<lparr>dirty_gfns := (dirty_gfns ring)
                    [unat (dirty_index ring AND (ring_size ring - 1)) := \<lparr>slot = s, offset = off\<rparr>],
                  dirty_index := dirty_index ring + 1,
                  indices := (indices ring)
                    \<lparr>avail_index := (dirty_index ring + 1) mod ring_size ring\<rparr>\<rparr>"
    and "unat (dirty_index ring AND (ring_size ring - 1)) < length (dirty_gfns ring)"
  using assms
  by (auto simp: kvm_dirty_ring_push_vcpu_def Let_def gfn_update_both split: if_splits)

section \<open>Counters modulo \<open>2 ^ 32\<close>\<close>

lemma unat_diff_of_nat:
  fixes sz :: u32
  assumes "R \<le> D" and "D \<le> R + unat sz"
  shows "unat ((of_nat D :: u32) - of_nat R) = D - R"
proof -
  have "(of_nat D :: u32) - of_nat R = of_nat (D - R)"
    using assms(1) by (simp add: of_nat_diff)
  moreover have "D - R < 2 ^ 32"
  proof -
    have "unat sz < 2 ^ 32" using unsigned_less [of sz] by simp
    with assms(2) show ?thesis by arith
  qed
  ultimately show ?thesis by (simp add: unat_of_nat)
qed

lemma fetch_check_unbounded:
  fixes f sz :: u32
  shows "\<not> sz < f - of_nat R \<longleftrightarrow> (\<exists>F. R \<le> F \<and> F \<le> R + unat sz \<and> f = of_nat F)"
proof
  assume a: "\<not> sz < f - of_nat R"
  let ?F = "R + unat (f - of_nat R)"
  have "unat (f - of_nat R) \<le> unat sz" using a by (simp add: word_less_nat_alt)
  moreover have "f = of_nat ?F" by simp
  ultimately show "\<exists>F. R \<le> F \<and> F \<le> R + unat sz \<and> f = of_nat F"
    by (intro exI [of _ ?F]) simp
next
  assume "\<exists>F. R \<le> F \<and> F \<le> R + unat sz \<and> f = of_nat F"
  then obtain F where F: "R \<le> F" "F \<le> R + unat sz" "f = of_nat F" by blast
  have "unat (f - of_nat R) = F - R"
    unfolding F(3) by (rule unat_diff_of_nat [OF F(1) F(2)])
  with F(2) have "unat (f - of_nat R) \<le> unat sz" by arith
  then show "\<not> sz < f - of_nat R" by (simp add: word_less_nat_alt)
qed

lemma reset_EINVAL_iff:
  "fst (kvm_dirty_ring_reset ring) = Inl EINVAL
     \<longleftrightarrow> ring_size ring < fetch_index (indices ring) - reset_index ring"
proof
  assume "fst (kvm_dirty_ring_reset ring) = Inl EINVAL"
  then show "ring_size ring < fetch_index (indices ring) - reset_index ring"
    using reset_not_EINVAL [of ring] by blast
next
  assume "ring_size ring < fetch_index (indices ring) - reset_index ring"
  then show "fst (kvm_dirty_ring_reset ring) = Inl EINVAL"
    by (simp add: kvm_dirty_ring_reset_def)
qed

lemma unat_u32_less:
  fixes w :: u32
  shows "unat w < 4294967296"
proof -
  have "unat w < 2 ^ LENGTH(32)" by (rule unsigned_less)
  then show ?thesis by simp
qed

lemma sint_small:
  fixes d :: u32
  assumes "unat d < 2 ^ 31"
  shows "sint d = int (unat d)"
proof -
  have u: "uint d = int (unat d)" by (rule uint_nat)
  have "int (unat d) < int (2 ^ 31)" using assms by (simp only: of_nat_less_iff)
  then have less: "uint d < 2 ^ 31" unfolding u [symmetric] by simp
  have "sint d = signed_take_bit (LENGTH(32) - Suc 0) (uint d)" by (rule sint_uint)
  also have "\<dots> = signed_take_bit 31 (uint d)" by simp
  also have "\<dots> = uint d"
  proof (rule signed_take_bit_int_eq_self)
    have "(0::int) \<le> uint d" by simp
    moreover have "- (2 ^ 31) \<le> (0::int)" by simp
    ultimately show "- (2 ^ 31) \<le> uint d" by (rule order_trans [rotated])
    show "uint d < 2 ^ 31" by (rule less)
  qed
  finally show ?thesis unfolding u .
qed

lemma alloc_fresh:
  assumes "kvm_dirty_ring_alloc vmalloc_ok sizeof_gfn RSVD ind idx sz = Inr ring"
  shows "dirty_index ring = 0" and "reset_index ring = 0"
    and "length (dirty_gfns ring) = unat (ring_size ring)"
    and "2 \<le> sizeof_gfn \<Longrightarrow> unat (ring_size ring) < 2 ^ 31"
proof -
  let ?n = "unat sz div sizeof_gfn"
  have ring: "ring = \<lparr>dirty_index = 0, reset_index = 0, ring_size = of_nat ?n,
                soft_limit = of_nat ?n - kvm_dirty_ring_get_rsvd_entries RSVD,
                dirty_gfns = replicate ?n \<lparr>slot = 0, offset = 0\<rparr>,
                indices = ind, index = idx\<rparr>"
    using assms by (simp add: kvm_dirty_ring_alloc_def split: if_splits)
  have sz: "unat sz < 2 ^ 32" using unat_u32_less [of sz] by simp
  have "?n \<le> unat sz" by (rule div_le_dividend)
  with sz have n: "?n < 2 ^ 32" by arith
  then have u: "unat (of_nat ?n :: u32) = ?n" by (simp add: unat_of_nat)
  show "dirty_index ring = 0" "reset_index ring = 0" by (simp_all add: ring)
  show "length (dirty_gfns ring) = unat (ring_size ring)" using u by (simp add: ring)
  show "unat (ring_size ring) < 2 ^ 31" if "2 \<le> sizeof_gfn"
  proof -
    have "?n \<le> unat sz div 2" using that by (simp add: div_le_mono2)
    also have "\<dots> < 2 ^ 31" using sz by simp
    finally show ?thesis using u by (simp add: ring)
  qed
qed

lemma push_ok:
  assumes "length (dirty_gfns ring) = unat (ring_size ring)"
    and "soft_limit ring \<le> ring_size ring"
    and "kvm_dirty_ring_used ring < soft_limit ring"
  shows "fst (kvm_dirty_ring_push v ring s off) = Inr 0"
    and "dirty_index (fst (snd (kvm_dirty_ring_push v ring s off))) = dirty_index ring + 1"
    and "reset_index (fst (snd (kvm_dirty_ring_push v ring s off))) = reset_index ring"
    and "ring_size (fst (snd (kvm_dirty_ring_push v ring s off))) = ring_size ring"
    and "soft_limit (fst (snd (kvm_dirty_ring_push v ring s off))) = soft_limit ring"
    and "length (dirty_gfns (fst (snd (kvm_dirty_ring_push v ring s off))))
           = length (dirty_gfns ring)"
proof -
  have nsf: "\<not> kvm_dirty_ring_soft_full ring"
    using assms(3) by (simp add: kvm_dirty_ring_soft_full_def)
  have "ring_size ring \<noteq> 0" using assms(2,3) by auto
  with assms(1) have "dirty_gfns_valid ring" by (simp add: dirty_gfns_valid_def)
  then have inr: "\<not> length (dirty_gfns ring) \<le> unat (dirty_index ring AND (ring_size ring - 1))"
    by (rule push_in_range)
  show "fst (kvm_dirty_ring_push v ring s off) = Inr 0"
    and "dirty_index (fst (snd (kvm_dirty_ring_push v ring s off))) = dirty_index ring + 1"
    and "reset_index (fst (snd (kvm_dirty_ring_push v ring s off))) = reset_index ring"
    and "ring_size (fst (snd (kvm_dirty_ring_push v ring s off))) = ring_size ring"
    and "soft_limit (fst (snd (kvm_dirty_ring_push v ring s off))) = soft_limit ring"
    and "length (dirty_gfns (fst (snd (kvm_dirty_ring_push v ring s off))))
           = length (dirty_gfns ring)"
    using nsf inr by (simp_all add: kvm_dirty_ring_push_def Let_def)
qed

lemma push_seq_ok:
  assumes "length (dirty_gfns ring) = unat (ring_size ring)"
    and "soft_limit ring \<le> ring_size ring"
    and "unat (kvm_dirty_ring_used ring) + length ps \<le> unat (soft_limit ring)"
  shows "\<exists>r. push_seq ring ps = Inr r
           \<and> dirty_index r = dirty_index ring + of_nat (length ps)
           \<and> reset_index r = reset_index ring
           \<and> ring_size r = ring_size ring
           \<and> soft_limit r = soft_limit ring
           \<and> length (dirty_gfns r) = length (dirty_gfns ring)"
  using assms
proof (induction ps arbitrary: ring)
  case Nil
  then show ?case by simp
next
  case (Cons p ps)
  obtain v s off where p: "p = (v, s, off)" by (cases p)
  let ?ring = "fst (snd (kvm_dirty_ring_push v ring s off))"
  have lt: "kvm_dirty_ring_used ring < soft_limit ring"
    using Cons.prems(3) by (simp add: word_less_nat_alt)
  note ok = push_ok [OF Cons.prems(1,2) lt, of v s off]
  have used: "kvm_dirty_ring_used ?ring = kvm_dirty_ring_used ring + 1"
    by (simp add: kvm_dirty_ring_used_def ok)
  have "unat (kvm_dirty_ring_used ring) + 1 < 2 ^ 32"
    using Cons.prems(3) unat_u32_less [of "soft_limit ring"] by simp
  then have "unat (kvm_dirty_ring_used ring + 1) = unat (kvm_dirty_ring_used ring) + 1"
    by (simp add: unat_word_ariths)
  with used Cons.prems(3)
  have bound: "unat (kvm_dirty_ring_used ?ring) + length ps \<le> unat (soft_limit ?ring)"
    by (simp add: ok)
  have "length (dirty_gfns ?ring) = unat (ring_size ?ring)"
    and "soft_limit ?ring \<le> ring_size ?ring"
    using Cons.prems(1,2) by (simp_all add: ok)
  from Cons.IH [OF this bound]
  obtain r where r: "push_seq ?ring ps = Inr r"
      "dirty_index r = dirty_index ?ring + of_nat (length ps)"
      "reset_index r = reset_index ?ring" "ring_size r = ring_size ?ring"
      "soft_limit r = soft_limit ?ring" "length (dirty_gfns r) = length (dirty_gfns ?ring)"
    by blast
  have "push_seq ring (p # ps) = Inr r" by (simp add: p ok r(1))
  then show ?case using r by (simp add: ok)
qed

lemma reset_all:
  assumes "length (dirty_gfns r) = unat (ring_size r)"
    and "unat (dirty_index r - reset_index r) \<le> unat (ring_size r)"
    and "unat (ring_size r) < 2 ^ 31"
  shows "\<exists>calls. kvm_dirty_ring_reset (publish_fetch (dirty_index r) r)
     = (Inr (int (unat (dirty_index r - reset_index r))),
        publish_fetch (dirty_index r) (r\<lparr>reset_index := dirty_index r\<rparr>), calls)"
proof -
  let ?r = "publish_fetch (dirty_index r) r"
  let ?d = "dirty_index r - reset_index r"
  have ok: "\<not> ring_size ?r < fetch_index (indices ?r) - reset_index ?r"
    using assms(2) by (simp add: publish_fetch_def word_less_nat_alt)
  show ?thesis
  proof (cases "dirty_index r = reset_index r")
    case True
    then have "kvm_dirty_ring_reset ?r = (Inr 0, ?r, [])"
      by (intro reset_noop) (simp add: publish_fetch_def)
    moreover have "r\<lparr>reset_index := dirty_index r\<rparr> = r" using True by simp
    ultimately show ?thesis using True by simp
  next
    case False
    then have "?d \<noteq> 0" by simp
    then have "unat ?d \<noteq> 0" by (simp add: unat_eq_0)
    with assms(2) have nz: "ring_size ?r \<noteq> 0" by (auto simp: publish_fetch_def)
    have len: "unat (ring_size ?r) \<le> length (dirty_gfns ?r)"
      using assms(1) by (simp add: publish_fetch_def)
    from reset_loop_total [OF nz len, of "dirty_index r" 0 0 0 True 0 "[]"]
    obtain c calls where loop: "kvm_dirty_ring_reset_loop (dirty_index r) ?r 0 0 0 True 0 []
        = (Inr c, ?r\<lparr>reset_index := dirty_index r\<rparr>, calls)"
      by blast
    from reset_loop_Inr [OF loop] have "c = sint ?d" by (simp add: publish_fetch_def)
    moreover have "sint ?d = int (unat ?d)"
    proof -
      have "unat ?d < 2 ^ 31" using assms(2,3) by simp
      then show ?thesis by (rule sint_small)
    qed
    ultimately have c: "c = int (unat ?d)" by simp
    have "kvm_dirty_ring_reset ?r = kvm_dirty_ring_reset_loop (dirty_index r) ?r 0 0 0 True 0 []"
      using ok False by (simp add: kvm_dirty_ring_reset_def Let_def publish_fetch_def)
    with loop c show ?thesis by (simp add: publish_fetch_def)
  qed
qed

lemma push_fields:
  assumes "kvm_dirty_ring_push v ring s off = (Inr ret, ring', warned)"
  shows "dirty_index ring' = dirty_index ring + 1" and "reset_index ring' = reset_index ring"
    and "ring_size ring' = ring_size ring" and "warned = kvm_dirty_ring_full ring"
  using assms by (auto simp: kvm_dirty_ring_push_def Let_def split: if_splits)

lemma ring_step_inv:
  assumes inv: "counters_inv (D, R, ring)" and small: "unat (ring_size ring) < 2 ^ 31"
    and step: "ring_step (D, R, ring) x = Some (D', R', ring')"
  shows "counters_inv (D', R', ring') \<and> ring_size ring' = ring_size ring"
proof -
  from inv have le: "R \<le> D" "D \<le> R + unat (ring_size ring)"
    and d: "dirty_index ring = of_nat D" and r: "reset_index ring = of_nat R"
    by (simp_all add: counters_inv_def)
  have used: "unat (kvm_dirty_ring_used ring) = D - R"
    unfolding kvm_dirty_ring_used_def d r by (rule unat_diff_of_nat [OF le])
  show ?thesis
  proof (cases x)
    case (Push v s off)
    with step obtain ret where
      p: "kvm_dirty_ring_push v ring s off = (Inr ret, ring', False)" and D': "D' = Suc D" and R': "R' = R"
      by (auto split: prod.splits sum.splits if_splits)
    note f = push_fields [OF p]
    from f(4) have "unat (kvm_dirty_ring_used ring) < unat (ring_size ring)"
      by (simp add: kvm_dirty_ring_full_def word_le_nat_alt)
    with used have "D - R < unat (ring_size ring)" by simp
    with le have "Suc D \<le> R + unat (ring_size ring)" by arith
    then show ?thesis using le d r f by (simp add: counters_inv_def D' R')
  next
    case (Publish f)
    with step inv show ?thesis by (auto simp: counters_inv_def publish_fetch_def)
  next
    case Reset
    with step obtain c calls where
      g: "fetch_index (indices ring) - reset_index ring \<le> kvm_dirty_ring_used ring"
      and e: "kvm_dirty_ring_reset ring = (Inr c, ring', calls)" and D': "D' = D" and R': "R' = R + nat c"
      by (auto split: prod.splits sum.splits if_splits)
    let ?f = "fetch_index (indices ring)"
    let ?n = "unat (?f - reset_index ring)"
    have ring': "ring' = ring\<lparr>reset_index := ?f\<rparr>" by (rule reset_Inr_state [OF e])
    from g used have n: "?n \<le> D - R" by (simp add: word_le_nat_alt)
    with le small have n31: "?n < 2 ^ 31" by arith
    have c: "c = int ?n"
    proof (cases "?f = reset_index ring")
      case True
      with e show ?thesis by (simp add: reset_noop)
    next
      case False
      with e have "kvm_dirty_ring_reset_loop ?f ring 0 0 0 True 0 [] = (Inr c, ring', calls)"
        by (simp add: kvm_dirty_ring_reset_def Let_def split: if_splits)
      from reset_loop_Inr [OF this] have "c = sint (?f - reset_index ring)" by simp
      with sint_small [OF n31] show ?thesis by simp
    qed
    have "reset_index ring' = of_nat (R + ?n)" by (simp add: ring' r)
    moreover have "R + ?n \<le> D" using n le by arith
    moreover have "D \<le> R + ?n + unat (ring_size ring)" using le by arith
    ultimately show ?thesis using d by (simp add: counters_inv_def D' R' c ring')
  qed
qed

lemma ring_run_inv:
  assumes "counters_inv st" and "unat (ring_size (snd (snd st))) < 2 ^ 31"
    and "ring_run st ops = Some st'"
  shows "counters_inv st'"
  using assms
proof (induction ops arbitrary: st)
  case Nil
  then show ?case by simp
next
  case (Cons x xs)
  obtain D R ring where st: "st = (D, R, ring)" by (cases st)
  from Cons.prems(3) obtain D1 R1 ring1 where
    s1: "ring_step (D, R, ring) x = Some (D1, R1, ring1)" and run: "ring_run (D1, R1, ring1) xs = Some st'"
    by (auto simp: st split: option.splits)
  from ring_step_inv [OF _ _ s1] Cons.prems(1,2)
  have "counters_inv (D1, R1, ring1)" and "ring_size ring1 = ring_size ring"
    by (simp_all add: st)
  with Cons.prems(2) have "unat (ring_size (snd (snd (D1, R1, ring1)))) < 2 ^ 31" by (simp add: st)
  from Cons.IH [OF \<open>counters_inv (D1, R1, ring1)\<close> this run] show ?case .
qed

section \<open>The claims\<close>

text \<open>
  C1 (as amended). In every state that a fresh ring reaches by pushes that return 0
  on a ring that was not full, by writes of userspace to \<^verbatim>\<open>fetch_index\<close>, and by resets
  that return a count for a \<^verbatim>\<open>fetch_index\<close> between \<^verbatim>\<open>reset_index\<close> and \<^verbatim>\<open>dirty_index\<close>:
  with \<open>D\<close> the number of pushes and \<open>R\<close> the sum of the counts returned, \<^verbatim>\<open>dirty_index\<close> is
  \<open>D\<close> and \<^verbatim>\<open>reset_index\<close> is \<open>R\<close> modulo \<open>2 ^ 32\<close> (a push adds exactly 1, a reset adds the
  number of entries consumed), and \<open>R \<le> D \<le> R + size\<close>.
\<close>

theorem C1_counters_invariant:
  assumes "kvm_dirty_ring_alloc vmalloc_ok sizeof_gfn RSVD ind idx sz = Inr ring0"
    and "2 \<le> sizeof_gfn"
    and "ring_run (0, 0, ring0) ops = Some (D, R, ring)"
  shows "R \<le> D \<and> D \<le> R + unat (ring_size ring)
       \<and> dirty_index ring = of_nat D \<and> reset_index ring = of_nat R"
proof -
  note fresh = alloc_fresh [OF assms(1)]
  have "counters_inv (0, 0, ring0)" by (simp add: counters_inv_def fresh)
  moreover have "unat (ring_size (snd (snd (0::nat, 0::nat, ring0)))) < 2 ^ 31"
    using fresh(4) [OF assms(2)] by simp
  ultimately have "counters_inv (D, R, ring)" using assms(3) by (rule ring_run_inv)
  then show ?thesis by (simp add: counters_inv_def)
qed

theorem C1_counters_invariant_witness:
  "kvm_dirty_ring_alloc True 16 1 \<lparr>avail_index = 0, fetch_index = 0\<rparr> 0 64 = Inr example_ring
   \<and> (2::nat) \<le> 16
   \<and> ring_run (0, 0, example_ring)
        [Push True 1 0, Push False 1 1, Push True 1 2, Publish 2, Reset, Push True 1 3]
       = Some (4, 2,
          \<lparr>dirty_index = 4, reset_index = 2, ring_size = 4, soft_limit = 3,
           dirty_gfns = [\<lparr>slot = 1, offset = 0\<rparr>, \<lparr>slot = 1, offset = 1\<rparr>,
                         \<lparr>slot = 1, offset = 2\<rparr>, \<lparr>slot = 1, offset = 3\<rparr>],
           indices = \<lparr>avail_index = 4, fetch_index = 2\<rparr>, index = 0\<rparr>)
   \<and> (2::nat) \<le> 4 \<and> (4::nat) \<le> 2 + unat (4::u32)
   \<and> (4::u32) = of_nat 4 \<and> (2::u32) = of_nat 2"
proof -
  have a: "kvm_dirty_ring_alloc True 16 1 \<lparr>avail_index = 0, fetch_index = 0\<rparr> 0 64
             = Inr example_ring"
    by code_simp
  have b: "(2::nat) \<le> 16" by simp
  have c: "ring_run (0, 0, example_ring)
        [Push True 1 0, Push False 1 1, Push True 1 2, Publish 2, Reset, Push True 1 3]
       = Some (4, 2,
          \<lparr>dirty_index = 4, reset_index = 2, ring_size = 4, soft_limit = 3,
           dirty_gfns = [\<lparr>slot = 1, offset = 0\<rparr>, \<lparr>slot = 1, offset = 1\<rparr>,
                         \<lparr>slot = 1, offset = 2\<rparr>, \<lparr>slot = 1, offset = 3\<rparr>],
           indices = \<lparr>avail_index = 4, fetch_index = 2\<rparr>, index = 0\<rparr>)"
    by code_simp
  from C1_counters_invariant [OF a b c] a b c show ?thesis by simp
qed

text \<open>
  C1 as stated fails, twice. On the fresh ring with nothing pushed, userspace
  publishes \<^verbatim>\<open>fetch_index = 1\<close>; reset accepts it (1 is within \<^verbatim>\<open>size\<close>), returns 1 and
  leaves \<^verbatim>\<open>reset_index = 1\<close> above \<^verbatim>\<open>dirty_index = 0\<close>. And five pushes with a running vCPU
  into the fresh ring of four entries all return 0 and leave \<^verbatim>\<open>dirty_index = 5\<close> above
  \<^verbatim>\<open>reset_index + size = 4\<close>.
\<close>

theorem C1_invariant_counterexample:
  "kvm_dirty_ring_alloc True 16 1 \<lparr>avail_index = 0, fetch_index = 0\<rparr> 0 64 = Inr example_ring
   \<and> kvm_dirty_ring_reset (publish_fetch 1 example_ring)
       = (Inr 1, publish_fetch 1 (example_ring\<lparr>reset_index := 1\<rparr>), [(0, 0, 0), (0, 0, 1)])
   \<and> \<not> reset_index (publish_fetch 1 (example_ring\<lparr>reset_index := 1\<rparr>))
         \<le> dirty_index (publish_fetch 1 (example_ring\<lparr>reset_index := 1\<rparr>))
   \<and> push_seq example_ring [(True, 1, 0), (True, 1, 1), (True, 1, 2), (True, 1, 3), (True, 1, 4)]
       = Inr \<lparr>dirty_index = 5, reset_index = 0, ring_size = 4, soft_limit = 3,
              dirty_gfns = [\<lparr>slot = 1, offset = 4\<rparr>, \<lparr>slot = 1, offset = 1\<rparr>,
                            \<lparr>slot = 1, offset = 2\<rparr>, \<lparr>slot = 1, offset = 3\<rparr>],
              indices = \<lparr>avail_index = 5, fetch_index = 0\<rparr>, index = 0\<rparr>
   \<and> \<not> unat (5::u32) \<le> unat (0::u32) + unat (4::u32)"
  by code_simp

text \<open>
  C2. Whenever the published \<^verbatim>\<open>fetch_index\<close> is more than \<^verbatim>\<open>size\<close> ahead of \<^verbatim>\<open>reset_index\<close>
  (the distance taken modulo \<open>2 ^ 32\<close>, as the code computes it), reset returns
  \<^verbatim>\<open>-EINVAL\<close>, makes no call of \<^verbatim>\<open>kvm_reset_dirty_gfn\<close> and leaves the whole ring as it was;
  whenever the distance is at most \<^verbatim>\<open>size\<close>, reset does not return \<^verbatim>\<open>-EINVAL\<close>.
\<close>

theorem C2_reset_invalid_range:
  "(ring_size ring < fetch_index (indices ring) - reset_index ring \<longrightarrow>
      kvm_dirty_ring_reset ring = (Inl EINVAL, ring, []))
   \<and> (\<not> ring_size ring < fetch_index (indices ring) - reset_index ring \<longrightarrow>
      fst (kvm_dirty_ring_reset ring) \<noteq> Inl EINVAL)"
proof (intro conjI impI)
  assume "ring_size ring < fetch_index (indices ring) - reset_index ring"
  then show "kvm_dirty_ring_reset ring = (Inl EINVAL, ring, [])"
    by (simp add: kvm_dirty_ring_reset_def)
next
  assume "\<not> ring_size ring < fetch_index (indices ring) - reset_index ring"
  then show "fst (kvm_dirty_ring_reset ring) \<noteq> Inl EINVAL"
    by (rule reset_not_EINVAL)
qed

theorem C2_reset_invalid_range_witness:
  "ring_size (publish_fetch 5 example_ring)
     < fetch_index (indices (publish_fetch 5 example_ring))
       - reset_index (publish_fetch 5 example_ring)
   \<and> kvm_dirty_ring_reset (publish_fetch 5 example_ring)
       = (Inl EINVAL, publish_fetch 5 example_ring, [])
   \<and> \<not> ring_size (publish_fetch 4 example_ring)
     < fetch_index (indices (publish_fetch 4 example_ring))
       - reset_index (publish_fetch 4 example_ring)
   \<and> fst (kvm_dirty_ring_reset (publish_fetch 4 example_ring)) \<noteq> Inl EINVAL"
  using C2_reset_invalid_range [of "publish_fetch 5 example_ring"]
        C2_reset_invalid_range [of "publish_fetch 4 example_ring"]
  by (simp add: publish_fetch_def example_ring_def)

text \<open>
  C3 (as amended). A ring fresh from \<^verbatim>\<open>kvm_dirty_ring_alloc\<close> whose \<^verbatim>\<open>soft_limit\<close> does not
  exceed its \<^verbatim>\<open>size\<close> (the reserved entries fit into the ring, so that the subtraction
  in the allocation does not wrap), with entries of at least two bytes, takes any \<open>n\<close> pushes with
  \<open>n\<close> at most \<^verbatim>\<open>soft_limit\<close>, whoever the caller is; the reset that follows with
  \<^verbatim>\<open>fetch_index = dirty_index\<close> returns exactly \<open>n\<close> and leaves \<^verbatim>\<open>reset_index\<close> equal to
  \<^verbatim>\<open>dirty_index\<close>.
\<close>

theorem C3_push_then_reset_count:
  assumes "kvm_dirty_ring_alloc vmalloc_ok sizeof_gfn RSVD ind idx sz = Inr ring"
    and "2 \<le> sizeof_gfn"
    and "soft_limit ring \<le> ring_size ring"
    and "length ps \<le> unat (soft_limit ring)"
  shows "\<exists>ring' calls.
           push_then_reset ring ps = Inr (Inr (int (length ps)), ring', calls)
           \<and> reset_index ring' = dirty_index ring'"
proof -
  note fresh = alloc_fresh [OF assms(1)]
  have "unat (kvm_dirty_ring_used ring) + length ps \<le> unat (soft_limit ring)"
    using assms(4) by (simp add: kvm_dirty_ring_used_def fresh)
  from push_seq_ok [OF fresh(3) assms(3) this]
  obtain r where r: "push_seq ring ps = Inr r"
      "dirty_index r = dirty_index ring + of_nat (length ps)"
      "reset_index r = reset_index ring" "ring_size r = ring_size ring"
      "soft_limit r = soft_limit ring" "length (dirty_gfns r) = length (dirty_gfns ring)"
    by blast
  have "length ps < 2 ^ 32"
    using assms(4) unat_u32_less [of "soft_limit ring"] by simp
  then have n: "unat (dirty_index r - reset_index r) = length ps"
    by (simp add: r fresh unat_of_nat)
  have "unat (soft_limit ring) \<le> unat (ring_size ring)"
    using assms(3) by (simp add: word_le_nat_alt)
  with assms(4) have le: "unat (dirty_index r - reset_index r) \<le> unat (ring_size r)"
    unfolding n r(4) by arith
  have len: "length (dirty_gfns r) = unat (ring_size r)" by (simp add: r fresh)
  have small: "unat (ring_size r) < 2 ^ 31" using fresh(4) [OF assms(2)] by (simp add: r)
  from reset_all [OF len le small] obtain calls where
    "kvm_dirty_ring_reset (publish_fetch (dirty_index r) r)
     = (Inr (int (unat (dirty_index r - reset_index r))),
        publish_fetch (dirty_index r) (r\<lparr>reset_index := dirty_index r\<rparr>), calls)"
    by blast
  then have "push_then_reset ring ps
     = Inr (Inr (int (length ps)),
            publish_fetch (dirty_index r) (r\<lparr>reset_index := dirty_index r\<rparr>), calls)"
    by (simp add: push_then_reset_def r(1) n)
  moreover have "reset_index (publish_fetch (dirty_index r) (r\<lparr>reset_index := dirty_index r\<rparr>))
     = dirty_index (publish_fetch (dirty_index r) (r\<lparr>reset_index := dirty_index r\<rparr>))"
    by (simp add: publish_fetch_def)
  ultimately show ?thesis by blast
qed

theorem C3_push_then_reset_count_witness:
  "kvm_dirty_ring_alloc True 16 1 \<lparr>avail_index = 0, fetch_index = 0\<rparr> 0 64 = Inr example_ring
   \<and> (2::nat) \<le> 16
   \<and> soft_limit example_ring \<le> ring_size example_ring
   \<and> length [(True, 1::u32, 0::u64), (False, 1, 1), (True, 2, 9)] \<le> unat (soft_limit example_ring)
   \<and> (\<exists>ring' calls.
         push_then_reset example_ring [(True, 1, 0), (False, 1, 1), (True, 2, 9)]
           = Inr (Inr (int (length [(True, 1::u32, 0::u64), (False, 1, 1), (True, 2, 9)])), ring', calls)
         \<and> reset_index ring' = dirty_index ring')"
proof -
  have a: "kvm_dirty_ring_alloc True 16 1 \<lparr>avail_index = 0, fetch_index = 0\<rparr> 0 64
             = Inr example_ring"
    by code_simp
  have b: "(2::nat) \<le> 16" by simp
  have c: "soft_limit example_ring \<le> ring_size example_ring"
    by (simp add: example_ring_def)
  have d: "length [(True, 1::u32, 0::u64), (False, 1, 1), (True, 2, 9)]
             \<le> unat (soft_limit example_ring)"
    by (simp add: example_ring_def)
  from C3_push_then_reset_count [OF a b c d] a b c d show ?thesis by blast
qed

text \<open>
  C3 as stated fails on a fresh ring whose reserved entries exceed its size. For 64
  bytes, entries of 16 bytes and 64 reserved entries, \<^verbatim>\<open>kvm_dirty_ring_alloc\<close> returns a ring
  of four entries with \<^verbatim>\<open>soft_limit = 4 - 64\<close> modulo \<open>2 ^ 32\<close>; five pushes, with or without
  a running vCPU, all return 0 and stay below that \<^verbatim>\<open>soft_limit\<close>, and the reset with
  \<^verbatim>\<open>fetch_index = dirty_index = 5\<close> returns \<^verbatim>\<open>-EINVAL\<close>, makes no call and leaves
  \<^verbatim>\<open>reset_index = 0\<close>.
\<close>

theorem C3_soft_limit_wrap_counterexample:
  "kvm_dirty_ring_alloc True 16 64 \<lparr>avail_index = 0, fetch_index = 0\<rparr> 0 64
     = Inr \<lparr>dirty_index = 0, reset_index = 0, ring_size = 4, soft_limit = 0xFFFFFFC4,
         dirty_gfns = [\<lparr>slot = 0, offset = 0\<rparr>, \<lparr>slot = 0, offset = 0\<rparr>,
                       \<lparr>slot = 0, offset = 0\<rparr>, \<lparr>slot = 0, offset = 0\<rparr>],
         indices = \<lparr>avail_index = 0, fetch_index = 0\<rparr>, index = 0\<rparr>
   \<and> length [(True, 1::u32, 0::u64), (False, 1, 1), (True, 1, 2), (False, 1, 3), (True, 1, 4)]
       \<le> unat (0xFFFFFFC4::u32)
   \<and> push_then_reset
        \<lparr>dirty_index = 0, reset_index = 0, ring_size = 4, soft_limit = 0xFFFFFFC4,
         dirty_gfns = [\<lparr>slot = 0, offset = 0\<rparr>, \<lparr>slot = 0, offset = 0\<rparr>,
                       \<lparr>slot = 0, offset = 0\<rparr>, \<lparr>slot = 0, offset = 0\<rparr>],
         indices = \<lparr>avail_index = 0, fetch_index = 0\<rparr>, index = 0\<rparr>
        [(True, 1, 0), (False, 1, 1), (True, 1, 2), (False, 1, 3), (True, 1, 4)]
     = Inr (Inl EINVAL,
        \<lparr>dirty_index = 5, reset_index = 0, ring_size = 4, soft_limit = 0xFFFFFFC4,
         dirty_gfns = [\<lparr>slot = 1, offset = 4\<rparr>, \<lparr>slot = 1, offset = 1\<rparr>,
                       \<lparr>slot = 1, offset = 2\<rparr>, \<lparr>slot = 1, offset = 3\<rparr>],
         indices = \<lparr>avail_index = 5, fetch_index = 5\<rparr>, index = 0\<rparr>,
        [])"
proof (intro conjI)
  show "kvm_dirty_ring_alloc True 16 64 \<lparr>avail_index = 0, fetch_index = 0\<rparr> 0 64
     = Inr \<lparr>dirty_index = 0, reset_index = 0, ring_size = 4, soft_limit = 0xFFFFFFC4,
         dirty_gfns = [\<lparr>slot = 0, offset = 0\<rparr>, \<lparr>slot = 0, offset = 0\<rparr>,
                       \<lparr>slot = 0, offset = 0\<rparr>, \<lparr>slot = 0, offset = 0\<rparr>],
         indices = \<lparr>avail_index = 0, fetch_index = 0\<rparr>, index = 0\<rparr>"
    by code_simp
  show "length [(True, 1::u32, 0::u64), (False, 1, 1), (True, 1, 2), (False, 1, 3), (True, 1, 4)]
       \<le> unat (0xFFFFFFC4::u32)"
    by simp
  show "push_then_reset
        \<lparr>dirty_index = 0, reset_index = 0, ring_size = 4, soft_limit = 0xFFFFFFC4,
         dirty_gfns = [\<lparr>slot = 0, offset = 0\<rparr>, \<lparr>slot = 0, offset = 0\<rparr>,
                       \<lparr>slot = 0, offset = 0\<rparr>, \<lparr>slot = 0, offset = 0\<rparr>],
         indices = \<lparr>avail_index = 0, fetch_index = 0\<rparr>, index = 0\<rparr>
        [(True, 1, 0), (False, 1, 1), (True, 1, 2), (False, 1, 3), (True, 1, 4)]
     = Inr (Inl EINVAL,
        \<lparr>dirty_index = 5, reset_index = 0, ring_size = 4, soft_limit = 0xFFFFFFC4,
         dirty_gfns = [\<lparr>slot = 1, offset = 4\<rparr>, \<lparr>slot = 1, offset = 1\<rparr>,
                       \<lparr>slot = 1, offset = 2\<rparr>, \<lparr>slot = 1, offset = 3\<rparr>],
         indices = \<lparr>avail_index = 5, fetch_index = 5\<rparr>, index = 0\<rparr>,
        [])"
    by code_simp
qed

text \<open>
  C4 (as amended). Push returns \<^verbatim>\<open>-EBUSY\<close> exactly when the used count
  \<^verbatim>\<open>dirty_index - reset_index\<close> is at least \<^verbatim>\<open>soft_limit\<close> and there is no running vCPU.
  Otherwise, on a ring whose array holds \<^verbatim>\<open>size\<close> entries, push returns 0: with a running
  vCPU whatever the used count, also above \<^verbatim>\<open>soft_limit\<close>; and \<^verbatim>\<open>WARN_ON_ONCE\<close> fires exactly
  when the ring was full. A push that succeeds always returns 0: the soft-full state is
  not in the return value, it is read with \<^verbatim>\<open>kvm_dirty_ring_soft_full\<close>.
\<close>

theorem C4_push_busy:
  "(fst (kvm_dirty_ring_push running_vcpu ring s off) = Inl EBUSY
      \<longleftrightarrow> \<not> running_vcpu \<and> soft_limit ring \<le> kvm_dirty_ring_used ring)
   \<and> ((running_vcpu \<or> kvm_dirty_ring_used ring < soft_limit ring) \<and> dirty_gfns_valid ring \<longrightarrow>
        fst (kvm_dirty_ring_push running_vcpu ring s off) = Inr 0
        \<and> snd (snd (kvm_dirty_ring_push running_vcpu ring s off)) = kvm_dirty_ring_full ring)
   \<and> (\<forall>ret. fst (kvm_dirty_ring_push running_vcpu ring s off) = Inr ret \<longrightarrow> ret = 0)"
proof (intro conjI impI allI)
  show "fst (kvm_dirty_ring_push running_vcpu ring s off) = Inl EBUSY
      \<longleftrightarrow> \<not> running_vcpu \<and> soft_limit ring \<le> kvm_dirty_ring_used ring"
    by (rule push_EBUSY_iff)
next
  assume a: "(running_vcpu \<or> kvm_dirty_ring_used ring < soft_limit ring) \<and> dirty_gfns_valid ring"
  then have go: "\<not> (\<not> running_vcpu \<and> kvm_dirty_ring_soft_full ring)"
    by (auto simp: kvm_dirty_ring_soft_full_def)
  from a have inr: "\<not> length (dirty_gfns ring) \<le> unat (dirty_index ring AND (ring_size ring - 1))"
    using push_in_range [of ring] by simp
  show "fst (kvm_dirty_ring_push running_vcpu ring s off) = Inr 0"
    using go inr by (auto simp: kvm_dirty_ring_push_def Let_def)
  show "snd (snd (kvm_dirty_ring_push running_vcpu ring s off)) = kvm_dirty_ring_full ring"
    using go inr by (auto simp: kvm_dirty_ring_push_def Let_def)
next
  fix ret assume "fst (kvm_dirty_ring_push running_vcpu ring s off) = Inr ret"
  then show "ret = 0" by (rule push_ret_zero)
qed

theorem C4_push_busy_witness:
  "soft_limit example_ring_soft_full \<le> kvm_dirty_ring_used example_ring_soft_full
   \<and> fst (kvm_dirty_ring_push False example_ring_soft_full 1 3) = Inl EBUSY
   \<and> dirty_gfns_valid example_ring_soft_full
   \<and> fst (kvm_dirty_ring_push True example_ring_soft_full 1 3) = Inr 0
   \<and> snd (snd (kvm_dirty_ring_push True example_ring_soft_full 1 3))
       = kvm_dirty_ring_full example_ring_soft_full"
proof -
  have u: "soft_limit example_ring_soft_full \<le> kvm_dirty_ring_used example_ring_soft_full"
    by (simp add: example_ring_soft_full_def kvm_dirty_ring_used_def)
  have v: "dirty_gfns_valid example_ring_soft_full"
    by (simp add: example_ring_soft_full_def dirty_gfns_valid_def)
  from C4_push_busy [of False example_ring_soft_full 1 3]
       C4_push_busy [of True example_ring_soft_full 1 3] u v
  show ?thesis by simp
qed

text \<open>
  C4 as stated fails: with a running vCPU, a push into the empty ring and a push into
  the ring with three of four entries used both return 0, yet the first ring is not
  soft-full before or after the push and the second is soft-full before and after.
\<close>

theorem C4_return_value_counterexample:
  "fst (kvm_dirty_ring_push True example_ring 1 0) = Inr 0
   \<and> \<not> kvm_dirty_ring_soft_full example_ring
   \<and> \<not> kvm_dirty_ring_soft_full (fst (snd (kvm_dirty_ring_push True example_ring 1 0)))
   \<and> fst (kvm_dirty_ring_push True example_ring_soft_full 1 3) = Inr 0
   \<and> kvm_dirty_ring_soft_full example_ring_soft_full
   \<and> kvm_dirty_ring_soft_full (fst (snd (kvm_dirty_ring_push True example_ring_soft_full 1 3)))"
  by code_simp

text \<open>
  C5: the code does otherwise. After the pushes of (1, 0), (1, 1) and (1, 2) into the
  fresh ring, the reset with \<^verbatim>\<open>fetch_index = dirty_index\<close> returns 3 and calls
  \<^verbatim>\<open>kvm_reset_dirty_gfn\<close> twice: first with (slot 0, offset 0, mask 0), the initial values
  of the local variables, then with (slot 1, offset 0, mask 7).
\<close>

theorem C5_three_forward_entries:
  "push_then_reset example_ring [(True, 1, 0), (True, 1, 1), (True, 1, 2)]
     = Inr (Inr 3,
            \<lparr>dirty_index = 3, reset_index = 3, ring_size = 4, soft_limit = 3,
             dirty_gfns = [\<lparr>slot = 1, offset = 0\<rparr>, \<lparr>slot = 1, offset = 1\<rparr>,
                           \<lparr>slot = 1, offset = 2\<rparr>, \<lparr>slot = 0, offset = 0\<rparr>],
             indices = \<lparr>avail_index = 3, fetch_index = 3\<rparr>, index = 0\<rparr>,
            [(0, 0, 0), (1, 0, 7)])"
  by code_simp

text \<open>
  The variant that takes the vCPU seeds the batch from the first entry before its loop:
  on the same ring it makes the one call (slot 1, offset 0, mask 7), and one call for a
  reset over a single entry.
\<close>

lemma reset_vcpu_three_forward_entries:
  "kvm_dirty_ring_reset_vcpu (publish_fetch 3 example_ring_soft_full)
     = Some (Inr 3, publish_fetch 3 (example_ring_soft_full\<lparr>reset_index := 3\<rparr>), [(1, 0, 7)])"
  by code_simp

lemma reset_vcpu_single_entry:
  "kvm_dirty_ring_reset_vcpu (publish_fetch 1 example_ring_soft_full)
     = Some (Inr 1, publish_fetch 1 (example_ring_soft_full\<lparr>reset_index := 1\<rparr>), [(1, 0, 1)])"
  by code_simp

text \<open>
  C6 (as amended). For every empty ring (\<^verbatim>\<open>dirty_index = reset_index\<close>) whose \<^verbatim>\<open>size\<close> is a
  power of two and at least 2: after successful pushes of (1, 5) and (1, 3), the reset
  with \<^verbatim>\<open>fetch_index = dirty_index\<close> returns 2 and coalesces the two entries into one batch:
  the last call of \<^verbatim>\<open>kvm_reset_dirty_gfn\<close> has slot 1, base offset 3 and mask 5 (binary 101:
  bit 0 for offset 3, bit 2 for offset 5), and no other call has a mask that names a page.
\<close>

theorem C6_backward_coalescing:
  assumes "ring_size ring = 2 ^ k" and "1 \<le> k" and "k < 32"
    and "dirty_index ring = reset_index ring"
    and "push_seq ring [(v1, 1, 5), (v2, 1, 3)] = Inr r"
  shows "\<exists>ring' calls.
     push_then_reset ring [(v1, 1, 5), (v2, 1, 3)] = Inr (Inr 2, ring', calls)
     \<and> reset_index ring' = dirty_index ring'
     \<and> last calls = (1, 3, 5)
     \<and> nonempty_flushes calls = [(1, 3, 5)]"
proof -
  let ?d = "dirty_index ring"
  let ?m = "ring_size ring - 1"
  let ?i0 = "unat (?d AND ?m)"
  let ?i1 = "unat ((?d + 1) AND ?m)"
  let ?gs = "(dirty_gfns ring)[?i0 := \<lparr>slot = 1, offset = 5\<rparr>, ?i1 := \<lparr>slot = 1, offset = 3\<rparr>]"
  from push_seq_two [OF assms(5)] obtain ring1 w1 w2 where
    p1: "kvm_dirty_ring_push v1 ring 1 5 = (Inr 0, ring1, w1)" and
    p2: "kvm_dirty_ring_push v2 ring1 1 3 = (Inr 0, r, w2)"
    by blast
  note f1 = push_Inr(1,2) [OF p1]
  note f2 = push_Inr(1,2) [OF p2]
  have i0: "?i0 < length (dirty_gfns ring)" by (rule f1(2))
  have i1: "?i1 < length (dirty_gfns ring)" using f2(2) by (simp add: f1(1))
  from ring_slot_succ_distinct [OF assms(2), of ?d] have ne: "?i0 \<noteq> ?i1"
    by (simp add: assms(1) word_unat_eq_iff)
  have r: "r = ring\<lparr>dirty_gfns := ?gs, dirty_index := ?d + 2,
                     indices := (indices ring)\<lparr>avail_index := ?d + 2\<rparr>\<rparr>"
    by (simp add: f2(1) f1(1) add.assoc)
  let ?r = "publish_fetch (dirty_index r) r"
  have e0: "dirty_gfns ?r ! ?i0 = \<lparr>slot = 1, offset = 5\<rparr>"
    using i0 i1 ne by (simp add: r publish_fetch_def)
  have e1: "dirty_gfns ?r ! ?i1 = \<lparr>slot = 1, offset = 3\<rparr>"
    using i0 i1 ne by (simp add: r publish_fetch_def)
  have len: "length (dirty_gfns ?r) = length (dirty_gfns ring)"
    by (simp add: r publish_fetch_def)
  have fields: "reset_index ?r = ?d" "fetch_index (indices ?r) = ?d + 2" "ring_size ?r = ring_size ring"
    by (simp_all add: r publish_fetch_def assms(4))
  have "unat ((2::u32) ^ k) = 2 ^ k" using assms(3) by (rule unat_pow2)
  moreover have "(2::nat) ^ 1 \<le> 2 ^ k" using assms(2) by (intro power_increasing) simp_all
  ultimately have "unat (2::u32) \<le> unat (ring_size ring)" by (simp add: assms(1))
  then have ok: "\<not> ring_size ?r < fetch_index (indices ?r) - reset_index ?r"
    by (simp add: fields word_less_nat_alt)
  have ne2: "?d + 2 \<noteq> ?d" by simp
  have reset: "kvm_dirty_ring_reset ?r = kvm_dirty_ring_reset_loop (?d + 2) ?r 0 0 0 True 0 []"
    using ok ne2 by (simp add: kvm_dirty_ring_reset_def Let_def fields)
  also have "\<dots> = kvm_dirty_ring_reset_loop (?d + 2) (?r\<lparr>reset_index := ?d + 1\<rparr>)
       1 5 1 False 1 [(0, 0, 0)]"
    using i0 by (subst kvm_dirty_ring_reset_loop.simps) (simp add: Let_def fields e0 len)
  also have "\<dots> = kvm_dirty_ring_reset_loop (?d + 2) (?r\<lparr>reset_index := ?d + 2\<rparr>)
       1 3 5 False 2 [(0, 0, 0)]"
    using i1 by (subst kvm_dirty_ring_reset_loop.simps)
      (simp add: Let_def fields e1 len BITS_PER_LONG_def add.assoc)
  also have "\<dots> = (Inr 2, ?r\<lparr>reset_index := ?d + 2\<rparr>, [(0, 0, 0), (1, 3, 5)])"
    by (simp add: reset_loop_exit)
  finally have res: "kvm_dirty_ring_reset ?r
      = (Inr 2, ?r\<lparr>reset_index := ?d + 2\<rparr>, [(0, 0, 0), (1, 3, 5)])" .
  have "push_then_reset ring [(v1, 1, 5), (v2, 1, 3)] = Inr (kvm_dirty_ring_reset ?r)"
    by (simp only: push_then_reset_def assms(5) sum.case)
  with res have "push_then_reset ring [(v1, 1, 5), (v2, 1, 3)]
      = Inr (Inr 2, ?r\<lparr>reset_index := ?d + 2\<rparr>, [(0, 0, 0), (1, 3, 5)])"
    by (simp only:)
  moreover have "reset_index (?r\<lparr>reset_index := ?d + 2\<rparr>) = dirty_index (?r\<lparr>reset_index := ?d + 2\<rparr>)"
    by (simp add: r publish_fetch_def)
  moreover have "last [(0, 0, 0), (1, 3, 5)] = ((1::u32), (3::u64), (5::u64))" by simp
  moreover have "nonempty_flushes [(0, 0, 0), (1, 3, 5)] = [((1::u32), (3::u64), (5::u64))]"
    by (simp add: nonempty_flushes_def)
  ultimately show ?thesis by blast
qed

theorem C6_backward_coalescing_witness:
  "ring_size example_ring = 2 ^ 2 \<and> (1::nat) \<le> 2 \<and> (2::nat) < 32
   \<and> dirty_index example_ring = reset_index example_ring
   \<and> push_seq example_ring [(True, 1, 5), (True, 1, 3)]
       = Inr \<lparr>dirty_index = 2, reset_index = 0, ring_size = 4, soft_limit = 3,
              dirty_gfns = [\<lparr>slot = 1, offset = 5\<rparr>, \<lparr>slot = 1, offset = 3\<rparr>,
                            \<lparr>slot = 0, offset = 0\<rparr>, \<lparr>slot = 0, offset = 0\<rparr>],
              indices = \<lparr>avail_index = 2, fetch_index = 0\<rparr>, index = 0\<rparr>
   \<and> (\<exists>ring' calls.
        push_then_reset example_ring [(True, 1, 5), (True, 1, 3)] = Inr (Inr 2, ring', calls)
        \<and> reset_index ring' = dirty_index ring'
        \<and> last calls = (1, 3, 5)
        \<and> nonempty_flushes calls = [(1, 3, 5)])"
proof -
  have a: "ring_size example_ring = 2 ^ 2" by (simp add: example_ring_def)
  have b: "(1::nat) \<le> 2" and c: "(2::nat) < 32" by simp_all
  have d: "dirty_index example_ring = reset_index example_ring" by (simp add: example_ring_def)
  have e: "push_seq example_ring [(True, 1, 5), (True, 1, 3)]
       = Inr \<lparr>dirty_index = 2, reset_index = 0, ring_size = 4, soft_limit = 3,
              dirty_gfns = [\<lparr>slot = 1, offset = 5\<rparr>, \<lparr>slot = 1, offset = 3\<rparr>,
                            \<lparr>slot = 0, offset = 0\<rparr>, \<lparr>slot = 0, offset = 0\<rparr>],
              indices = \<lparr>avail_index = 2, fetch_index = 0\<rparr>, index = 0\<rparr>"
    by code_simp
  from C6_backward_coalescing [OF a b c d e] a b c d e show ?thesis by blast
qed

text \<open>
  C6 as stated fails: the mask of the coalesced batch is 5 (binary 101), not 36 (binary
  100100), and no call of \<^verbatim>\<open>kvm_reset_dirty_gfn\<close> has the arguments (1, 3, 36).
\<close>

theorem C6_mask_counterexample:
  "push_then_reset example_ring [(True, 1, 5), (True, 1, 3)]
     = Inr (Inr 2,
            \<lparr>dirty_index = 2, reset_index = 2, ring_size = 4, soft_limit = 3,
             dirty_gfns = [\<lparr>slot = 1, offset = 5\<rparr>, \<lparr>slot = 1, offset = 3\<rparr>,
                           \<lparr>slot = 0, offset = 0\<rparr>, \<lparr>slot = 0, offset = 0\<rparr>],
             indices = \<lparr>avail_index = 2, fetch_index = 2\<rparr>, index = 0\<rparr>,
            [(0, 0, 0), (1, 3, 5)])
   \<and> [(0, 0, 0), (1, 3, 5)] \<noteq> [((1::u32), (3::u64), (36::u64))]
   \<and> ((1::u32), (3::u64), (36::u64)) \<notin> set [(0, 0, 0), (1, 3, 5)]"
  by code_simp

text \<open>
  C7: the code does otherwise. A reset over exactly one entry, on a ring whose array
  holds \<^verbatim>\<open>size\<close> entries, calls \<^verbatim>\<open>kvm_reset_dirty_gfn\<close> twice: in the first round of the
  loop with the initial values (slot 0, offset 0, mask 0), and after the loop with the
  entry and mask 1. It returns 1 and moves \<^verbatim>\<open>reset_index\<close> by one.
\<close>

theorem C7_single_entry_reset:
  assumes "dirty_gfns_valid ring"
    and "fetch_index (indices ring) = reset_index ring + 1"
  shows "kvm_dirty_ring_reset ring =
     (Inr 1, ring\<lparr>reset_index := reset_index ring + 1\<rparr>,
      [(0, 0, 0),
       (slot (dirty_gfns ring ! unat (reset_index ring AND (ring_size ring - 1))),
        offset (dirty_gfns ring ! unat (reset_index ring AND (ring_size ring - 1))), 1)])"
proof -
  let ?f = "fetch_index (indices ring)"
  have ne: "reset_index ring \<noteq> ?f" using assms(2) by simp
  have sz: "ring_size ring \<noteq> 0" using assms(1) by (simp add: dirty_gfns_valid_def)
  have "?f - reset_index ring = 1" using assms(2) by simp
  then have ok: "\<not> ring_size ring < ?f - reset_index ring" using sz by simp
  have inr: "\<not> length (dirty_gfns ring) \<le> unat (reset_index ring AND (ring_size ring - 1))"
    using and_size_minus_one_less [OF sz, of "reset_index ring"] assms(1)
    by (simp add: dirty_gfns_valid_def)
  have "kvm_dirty_ring_reset ring = kvm_dirty_ring_reset_loop ?f ring 0 0 0 True 0 []"
    using ok ne by (auto simp: kvm_dirty_ring_reset_def Let_def)
  also have "\<dots> = kvm_dirty_ring_reset_loop ?f (ring\<lparr>reset_index := reset_index ring + 1\<rparr>)
      (slot (dirty_gfns ring ! unat (reset_index ring AND (ring_size ring - 1))))
      (offset (dirty_gfns ring ! unat (reset_index ring AND (ring_size ring - 1))))
      1 False 1 [(0, 0, 0)]"
    using ne inr by (subst kvm_dirty_ring_reset_loop.simps) (simp add: Let_def)
  also have "\<dots> = (Inr 1, ring\<lparr>reset_index := reset_index ring + 1\<rparr>,
      [(0, 0, 0),
       (slot (dirty_gfns ring ! unat (reset_index ring AND (ring_size ring - 1))),
        offset (dirty_gfns ring ! unat (reset_index ring AND (ring_size ring - 1))), 1)])"
    using assms(2) by (simp add: reset_loop_exit)
  finally show ?thesis .
qed

theorem C7_single_entry_reset_witness:
  "dirty_gfns_valid (publish_fetch 1 example_ring_soft_full)
   \<and> fetch_index (indices (publish_fetch 1 example_ring_soft_full))
       = reset_index (publish_fetch 1 example_ring_soft_full) + 1
   \<and> kvm_dirty_ring_reset (publish_fetch 1 example_ring_soft_full)
       = (Inr 1, publish_fetch 1 (example_ring_soft_full\<lparr>reset_index := 1\<rparr>),
          [(0, 0, 0), (1, 0, 1)])"
proof -
  have v: "dirty_gfns_valid (publish_fetch 1 example_ring_soft_full)"
    by (simp add: publish_fetch_def example_ring_soft_full_def dirty_gfns_valid_def)
  have f: "fetch_index (indices (publish_fetch 1 example_ring_soft_full))
       = reset_index (publish_fetch 1 example_ring_soft_full) + 1"
    by (simp add: publish_fetch_def example_ring_soft_full_def)
  from C7_single_entry_reset [OF v f] v f show ?thesis
    by (simp add: publish_fetch_def example_ring_soft_full_def)
qed

text \<open>
  C8 (as amended). For a ring whose \<^verbatim>\<open>size\<close> is a power of two and every push that
  succeeds, in either variant: the entry at position \<^verbatim>\<open>dirty_index mod size\<close> becomes
  (slot, offset) and no other entry changes, \<^verbatim>\<open>dirty_index\<close> grows by exactly 1 (modulo
  \<open>2 ^ 32\<close>), and \<^verbatim>\<open>reset_index\<close>, \<^verbatim>\<open>size\<close>, \<^verbatim>\<open>soft_limit\<close>, \<^verbatim>\<open>fetch_index\<close> and \<^verbatim>\<open>index\<close> keep
  their values. The published \<^verbatim>\<open>avail_index\<close> is the new \<^verbatim>\<open>dirty_index\<close> after
  \<^verbatim>\<open>kvm_dirty_ring_push(ring, slot, offset)\<close>, and the new \<^verbatim>\<open>dirty_index mod size\<close> after
  \<^verbatim>\<open>kvm_dirty_ring_push(vcpu, slot, offset)\<close>.
\<close>

theorem C8_push_effect:
  assumes "ring_size ring = 2 ^ k" and "k < 32"
  shows "(\<forall>ret ring' warned.
            kvm_dirty_ring_push running_vcpu ring s off = (Inr ret, ring', warned) \<longrightarrow>
              unat (dirty_index ring) mod unat (ring_size ring) < length (dirty_gfns ring)
              \<and> dirty_gfns ring' = (dirty_gfns ring)
                   [unat (dirty_index ring) mod unat (ring_size ring) := \<lparr>slot = s, offset = off\<rparr>]
              \<and> dirty_index ring' = dirty_index ring + 1
              \<and> avail_index (indices ring') = dirty_index ring'
              \<and> fetch_index (indices ring') = fetch_index (indices ring)
              \<and> reset_index ring' = reset_index ring
              \<and> ring_size ring' = ring_size ring
              \<and> soft_limit ring' = soft_limit ring
              \<and> index ring' = index ring)
       \<and> (\<forall>ret ring' warned.
            kvm_dirty_ring_push_vcpu ring s off = (Inr ret, ring', warned) \<longrightarrow>
              unat (dirty_index ring) mod unat (ring_size ring) < length (dirty_gfns ring)
              \<and> dirty_gfns ring' = (dirty_gfns ring)
                   [unat (dirty_index ring) mod unat (ring_size ring) := \<lparr>slot = s, offset = off\<rparr>]
              \<and> dirty_index ring' = dirty_index ring + 1
              \<and> avail_index (indices ring') = dirty_index ring' mod ring_size ring
              \<and> fetch_index (indices ring') = fetch_index (indices ring)
              \<and> reset_index ring' = reset_index ring
              \<and> ring_size ring' = ring_size ring
              \<and> soft_limit ring' = soft_limit ring
              \<and> index ring' = index ring)"
proof -
  have pos: "unat (dirty_index ring AND (ring_size ring - 1))
             = unat (dirty_index ring) mod unat (ring_size ring)"
    using and_pow2_minus_one [of "dirty_index ring" k] assms(1) by simp
  show ?thesis
  proof (intro conjI allI impI)
    fix ret ring' warned
    assume p: "kvm_dirty_ring_push running_vcpu ring s off = (Inr ret, ring', warned)"
    note f = push_Inr(1,2) [OF p]
    show "unat (dirty_index ring) mod unat (ring_size ring) < length (dirty_gfns ring)"
      using f(2) by (simp only: pos)
    show "dirty_gfns ring' = (dirty_gfns ring)
            [unat (dirty_index ring) mod unat (ring_size ring) := \<lparr>slot = s, offset = off\<rparr>]"
      by (simp add: f(1) pos)
    show "dirty_index ring' = dirty_index ring + 1"
      and "avail_index (indices ring') = dirty_index ring'"
      and "fetch_index (indices ring') = fetch_index (indices ring)"
      and "reset_index ring' = reset_index ring"
      and "ring_size ring' = ring_size ring"
      and "soft_limit ring' = soft_limit ring"
      and "index ring' = index ring"
      by (simp_all add: f(1))
  next
    fix ret ring' warned
    assume p: "kvm_dirty_ring_push_vcpu ring s off = (Inr ret, ring', warned)"
    note f = push_vcpu_Inr [OF p]
    show "unat (dirty_index ring) mod unat (ring_size ring) < length (dirty_gfns ring)"
      using f(2) by (simp only: pos)
    show "dirty_gfns ring' = (dirty_gfns ring)
            [unat (dirty_index ring) mod unat (ring_size ring) := \<lparr>slot = s, offset = off\<rparr>]"
      by (simp add: f(1) pos)
    show "dirty_index ring' = dirty_index ring + 1"
      and "avail_index (indices ring') = dirty_index ring' mod ring_size ring"
      and "fetch_index (indices ring') = fetch_index (indices ring)"
      and "reset_index ring' = reset_index ring"
      and "ring_size ring' = ring_size ring"
      and "soft_limit ring' = soft_limit ring"
      and "index ring' = index ring"
      by (simp_all add: f(1))
  qed
qed

theorem C8_push_effect_witness:
  "ring_size example_ring_wrapped = 2 ^ 2 \<and> (2::nat) < 32
   \<and> kvm_dirty_ring_push True example_ring_wrapped 7 9 =
       (Inr 0,
        \<lparr>dirty_index = 2, reset_index = 0xFFFFFFFF, ring_size = 4, soft_limit = 3,
         dirty_gfns = [\<lparr>slot = 2, offset = 8\<rparr>, \<lparr>slot = 7, offset = 9\<rparr>,
                       \<lparr>slot = 0, offset = 0\<rparr>, \<lparr>slot = 2, offset = 7\<rparr>],
         indices = \<lparr>avail_index = 2, fetch_index = 0xFFFFFFFF\<rparr>, index = 0\<rparr>,
        False)
   \<and> kvm_dirty_ring_push_vcpu example_ring_wrapped 7 9 =
       (Inr 1,
        \<lparr>dirty_index = 2, reset_index = 0xFFFFFFFF, ring_size = 4, soft_limit = 3,
         dirty_gfns = [\<lparr>slot = 2, offset = 8\<rparr>, \<lparr>slot = 7, offset = 9\<rparr>,
                       \<lparr>slot = 0, offset = 0\<rparr>, \<lparr>slot = 2, offset = 7\<rparr>],
         indices = \<lparr>avail_index = 2, fetch_index = 0xFFFFFFFF\<rparr>, index = 0\<rparr>,
        False)
   \<and> unat (dirty_index example_ring_wrapped) mod unat (ring_size example_ring_wrapped) = 1
   \<and> [\<lparr>slot = 2, offset = 8\<rparr>, \<lparr>slot = 7, offset = 9\<rparr>,
       \<lparr>slot = 0, offset = 0\<rparr>, \<lparr>slot = 2, offset = 7\<rparr>]
       = (dirty_gfns example_ring_wrapped)
           [unat (dirty_index example_ring_wrapped) mod unat (ring_size example_ring_wrapped)
              := \<lparr>slot = 7, offset = 9\<rparr>]
   \<and> (2::u32) = dirty_index example_ring_wrapped + 1
   \<and> (2::u32) = (dirty_index example_ring_wrapped + 1) mod ring_size example_ring_wrapped"
proof -
  let ?W = "\<lparr>dirty_index = 2, reset_index = 0xFFFFFFFF, ring_size = 4, soft_limit = 3,
         dirty_gfns = [\<lparr>slot = 2, offset = 8\<rparr>, \<lparr>slot = 7, offset = 9\<rparr>,
                       \<lparr>slot = 0, offset = 0\<rparr>, \<lparr>slot = 2, offset = 7\<rparr>],
         indices = \<lparr>avail_index = 2, fetch_index = 0xFFFFFFFF\<rparr>, index = 0\<rparr>"
  have sz: "ring_size example_ring_wrapped = 2 ^ 2"
    by (simp add: example_ring_wrapped_def)
  have k: "(2::nat) < 32" by simp
  have p: "kvm_dirty_ring_push True example_ring_wrapped 7 9 = (Inr 0, ?W, False)"
    by code_simp
  have q: "kvm_dirty_ring_push_vcpu example_ring_wrapped 7 9 = (Inr 1, ?W, False)"
    by code_simp
  have pos: "unat (dirty_index example_ring_wrapped) mod unat (ring_size example_ring_wrapped) = 1"
    by (simp add: example_ring_wrapped_def)
  note th = C8_push_effect [OF sz k, of True 7 9]
  from th p have "dirty_gfns ?W = (dirty_gfns example_ring_wrapped)
           [unat (dirty_index example_ring_wrapped) mod unat (ring_size example_ring_wrapped)
              := \<lparr>slot = 7, offset = 9\<rparr>]"
    and "dirty_index ?W = dirty_index example_ring_wrapped + 1"
    by blast+
  moreover from th q have "avail_index (indices ?W) = dirty_index ?W mod ring_size example_ring_wrapped"
    by blast
  ultimately show ?thesis using sz k p q pos by (simp add: example_ring_wrapped_def)
qed

text \<open>
  C8 as stated fails in the variant that takes the vCPU: a push into the ring of four
  entries with three in use succeeds, leaves \<^verbatim>\<open>dirty_index = 4\<close> and publishes
  \<^verbatim>\<open>avail_index = 4 mod 4 = 0\<close>.
\<close>

theorem C8_avail_index_counterexample:
  "kvm_dirty_ring_push_vcpu example_ring_soft_full 1 3 =
     (Inr 1,
      \<lparr>dirty_index = 4, reset_index = 0, ring_size = 4, soft_limit = 3,
       dirty_gfns = [\<lparr>slot = 1, offset = 0\<rparr>, \<lparr>slot = 1, offset = 1\<rparr>,
                     \<lparr>slot = 1, offset = 2\<rparr>, \<lparr>slot = 1, offset = 3\<rparr>],
       indices = \<lparr>avail_index = 0, fetch_index = 0\<rparr>, index = 0\<rparr>,
      False)
   \<and> (0::u32) \<noteq> 4"
  by code_simp

text \<open>
  C9. If the published \<^verbatim>\<open>fetch_index\<close> equals \<^verbatim>\<open>reset_index\<close>, reset returns 0, makes no
  call of \<^verbatim>\<open>kvm_reset_dirty_gfn\<close> and changes nothing. A reset that returns a count leaves
  \<^verbatim>\<open>fetch_index\<close> as it was, and a second reset right after it returns 0, changes nothing
  and makes no call.
\<close>

theorem C9_reset_idempotent:
  "(fetch_index (indices ring) = reset_index ring \<longrightarrow>
      kvm_dirty_ring_reset ring = (Inr 0, ring, []))
   \<and> (\<forall>c ring' calls. kvm_dirty_ring_reset ring = (Inr c, ring', calls) \<longrightarrow>
         fetch_index (indices ring') = fetch_index (indices ring)
         \<and> kvm_dirty_ring_reset ring' = (Inr 0, ring', []))"
proof (intro conjI impI allI)
  assume "fetch_index (indices ring) = reset_index ring"
  then show "kvm_dirty_ring_reset ring = (Inr 0, ring, [])" by (rule reset_noop)
next
  fix c ring' calls
  assume "kvm_dirty_ring_reset ring = (Inr c, ring', calls)"
  then have r: "ring' = ring\<lparr>reset_index := fetch_index (indices ring)\<rparr>"
    by (rule reset_Inr_state)
  then show "fetch_index (indices ring') = fetch_index (indices ring)" by simp
  from r have "fetch_index (indices ring') = reset_index ring'" by simp
  then show "kvm_dirty_ring_reset ring' = (Inr 0, ring', [])" by (rule reset_noop)
qed

theorem C9_reset_idempotent_witness:
  "fetch_index (indices example_ring) = reset_index example_ring
   \<and> kvm_dirty_ring_reset example_ring = (Inr 0, example_ring, [])
   \<and> kvm_dirty_ring_reset (publish_fetch 3 example_ring_soft_full)
       = (Inr 3, publish_fetch 3 (example_ring_soft_full\<lparr>reset_index := 3\<rparr>),
          [(0, 0, 0), (1, 0, 7)])
   \<and> kvm_dirty_ring_reset (publish_fetch 3 (example_ring_soft_full\<lparr>reset_index := 3\<rparr>))
       = (Inr 0, publish_fetch 3 (example_ring_soft_full\<lparr>reset_index := 3\<rparr>), [])"
proof -
  have first: "kvm_dirty_ring_reset (publish_fetch 3 example_ring_soft_full)
       = (Inr 3, publish_fetch 3 (example_ring_soft_full\<lparr>reset_index := 3\<rparr>),
          [(0, 0, 0), (1, 0, 7)])"
    by code_simp
  have "fetch_index (indices example_ring) = reset_index example_ring"
    by (simp add: example_ring_def)
  with C9_reset_idempotent [of example_ring]
  have "kvm_dirty_ring_reset example_ring = (Inr 0, example_ring, [])" by simp
  moreover from C9_reset_idempotent [of "publish_fetch 3 example_ring_soft_full"] first
  have "kvm_dirty_ring_reset (publish_fetch 3 (example_ring_soft_full\<lparr>reset_index := 3\<rparr>))
       = (Inr 0, publish_fetch 3 (example_ring_soft_full\<lparr>reset_index := 3\<rparr>), [])"
    by blast
  ultimately show ?thesis using first by (simp add: example_ring_def)
qed

text \<open>
  C10. For counters that are the images modulo \<open>2 ^ 32\<close> of unbounded counts \<open>R \<le> D \<le> R + size\<close>,
  the 32-bit difference \<^verbatim>\<open>dirty_index - reset_index\<close> is the true number \<open>D - R\<close> of entries not
  yet consumed, and the check of reset accepts (does not return \<^verbatim>\<open>-EINVAL\<close> for) exactly the
  \<^verbatim>\<open>fetch_index\<close> values that are the image of some \<open>F\<close> in the unbounded interval from \<open>R\<close> to
  \<open>R + size\<close>, whether or not the counters have passed \<open>2 ^ 32\<close>.
\<close>

theorem C10_wraparound_safe:
  assumes "R \<le> D" and "D \<le> R + unat (ring_size ring)"
    and "dirty_index ring = of_nat D" and "reset_index ring = of_nat R"
  shows "unat (kvm_dirty_ring_used ring) = D - R
     \<and> (fst (kvm_dirty_ring_reset ring) \<noteq> Inl EINVAL \<longleftrightarrow>
          (\<exists>F. R \<le> F \<and> F \<le> R + unat (ring_size ring)
               \<and> fetch_index (indices ring) = of_nat F))"
proof
  show "unat (kvm_dirty_ring_used ring) = D - R"
    unfolding kvm_dirty_ring_used_def assms(3,4)
    by (rule unat_diff_of_nat [OF assms(1,2)])
next
  show "fst (kvm_dirty_ring_reset ring) \<noteq> Inl EINVAL \<longleftrightarrow>
          (\<exists>F. R \<le> F \<and> F \<le> R + unat (ring_size ring)
               \<and> fetch_index (indices ring) = of_nat F)"
    unfolding reset_EINVAL_iff assms(4)
    by (rule fetch_check_unbounded)
qed

theorem C10_wraparound_safe_witness:
  "(4294967295::nat) \<le> 4294967297
   \<and> (4294967297::nat) \<le> 4294967295 + unat (ring_size example_ring_wrapped)
   \<and> dirty_index example_ring_wrapped = of_nat 4294967297
   \<and> reset_index example_ring_wrapped = of_nat 4294967295
   \<and> unat (kvm_dirty_ring_used example_ring_wrapped) = 2
   \<and> (fst (kvm_dirty_ring_reset example_ring_wrapped) \<noteq> Inl EINVAL \<longleftrightarrow>
        (\<exists>F. 4294967295 \<le> F \<and> F \<le> 4294967295 + unat (ring_size example_ring_wrapped)
             \<and> fetch_index (indices example_ring_wrapped) = of_nat F))"
proof -
  have a: "(4294967295::nat) \<le> 4294967297" by simp
  have b: "(4294967297::nat) \<le> 4294967295 + unat (ring_size example_ring_wrapped)"
    by (simp add: example_ring_wrapped_def)
  have c: "dirty_index example_ring_wrapped = of_nat 4294967297"
    by (simp add: example_ring_wrapped_def)
  have d: "reset_index example_ring_wrapped = of_nat 4294967295"
    by (simp add: example_ring_wrapped_def)
  from C10_wraparound_safe [OF a b c d] a b c d show ?thesis by simp
qed

end
